theory Spec2Isabelle
  imports Complex_Main "HOL-Library.Word"
begin

section \<open>Data model (src/types/index.ts, src/types/detection.ts)\<close>

text \<open>
  A JavaScript \<open>number\<close> that holds a time, a confidence or a score is a \<^typ>\<open>real\<close>.
  The confidence that the clusterer returns is computed as the source computes it, in
  IEEE-754 double arithmetic: each literal and each operation is rounded by \<open>dbl\<close> (next
  section). The time differences of the clusterer, the segment bounds and the scores of the
  frame scorer are the exact arithmetic of the source text, with the rounding of each
  operation left out. Counters and indices are \<^typ>\<open>nat\<close>, the bytes of a decoded frame are
  \<^typ>\<open>8 word\<close>.
\<close>

record KillScreenTimestamp =
  frameNumber :: nat
  timeInSeconds :: real
  confidence :: real

record VideoSegment =
  startTime :: real
  endTime :: real
  duration :: real

record DetectionEntry =
  entry_id :: nat
  entry_timeInSeconds :: real
  entry_frameNumber :: nat
  entry_confidence :: real
  enabled :: bool
  entry_note :: "string option"

section \<open>IEEE-754 double rounding\<close>

text \<open>
  \<open>dbl x\<close> is the double nearest to the real \<open>x\<close>: round to nearest, ties to the even
  significand, 53 significant bits, gradual underflow below \<open>2\<^sup>-\<^sup>1\<^sup>0\<^sup>2\<^sup>2\<close>. A JavaScript
  literal \<open>0.1\<close> is \<open>dbl (1/10)\<close>, a sum \<open>a + b\<close> of two doubles is \<open>dbl (a + b)\<close>. Overflow to
  \<open>Infinity\<close> (magnitudes from \<open>2\<^sup>1\<^sup>0\<^sup>2\<^sup>4\<close> on) is outside the model.

  \<open>binade n a e\<close> looks for the exponent of \<open>a > 0\<close>, the \<open>k\<close> with \<open>2\<^sup>k \<le> a < 2\<^sup>k\<^sup>+\<^sup>1\<close>, in at
  most \<open>n\<close> halvings or doublings; \<open>nat \<lceil>max a (1 / a)\<rceil>\<close> steps are enough
  (\<open>binade_exponent\<close>).
\<close>

definition roundHalfEven :: "real \<Rightarrow> int" where
  "roundHalfEven q =
     (let f = \<lfloor>q\<rfloor>; d = q - of_int f
      in if d < 1/2 then f else if 1/2 < d then f + 1 else if even f then f else f + 1)"

fun binade :: "nat \<Rightarrow> real \<Rightarrow> int \<Rightarrow> int" where
  "binade 0 a e = e"
| "binade (Suc n) a e =
     (if 2 \<le> a then binade n (a / 2) (e + 1)
      else if a < 1 then binade n (a * 2) (e - 1)
      else e)"

definition dbl :: "real \<Rightarrow> real" where
  "dbl x =
     (if x = 0 then 0
      else let a = \<bar>x\<bar>;
               e = max (binade (nat \<lceil>max a (1 / a)\<rceil>) a 0) (- 1022)
           in if e \<le> 52
              then sgn x * of_int (roundHalfEven (a * 2 ^ nat (52 - e))) / 2 ^ nat (52 - e)
              else sgn x * of_int (roundHalfEven (a / 2 ^ nat (e - 52))) * 2 ^ nat (e - 52))"

section \<open>SegmentPlanner (VideoProcessor.createVideoSegments)\<close>

definition createVideoSegments ::
  "KillScreenTimestamp list \<Rightarrow> real \<Rightarrow> real \<Rightarrow> VideoSegment list" where
  "createVideoSegments timestamps beforeSeconds afterSeconds =
     map (\<lambda>timestamp.
        \<lparr> startTime = max 0 (timeInSeconds timestamp - beforeSeconds),
          endTime = timeInSeconds timestamp + afterSeconds,
          duration = beforeSeconds + afterSeconds \<rparr>) timestamps"

section \<open>Generation run (generateVideo)\<close>

text \<open>
  The part of \<open>DetectionProject\<close> and of the command-line options that \<open>generateVideo\<close> reads
  to plan segments. \<open>opt_before\<close> and \<open>opt_after\<close> hold the parsed number when the option was
  given; \<open>opt_input\<close> holds the path given with \<open>--input\<close> (an empty string is falsy in the
  source and falls back to the project's path).
\<close>

record DetectionProject =
  inputVideo :: string
  beforeSeconds :: real
  afterSeconds :: real
  detections :: "DetectionEntry list"

record GenerateOptions =
  opt_input :: "string option"
  opt_before :: "real option"
  opt_after :: "real option"
  preview :: bool

text \<open>
  What a run hands over: nothing when no record is enabled (early return), nothing in preview
  mode, otherwise the input path and the segment list given to
  \<open>extractAndConcatenateSegments\<close>.
\<close>

datatype GenerateOutcome =
    NoEnabledDetections
  | PreviewOnly
  | Concatenate string "VideoSegment list"

definition inputVideoPath :: "DetectionProject \<Rightarrow> GenerateOptions \<Rightarrow> string" where
  "inputVideoPath project options =
     (case opt_input options of
        Some s \<Rightarrow> if s = [] then inputVideo project else s
      | None \<Rightarrow> inputVideo project)"

definition effectiveBefore :: "DetectionProject \<Rightarrow> GenerateOptions \<Rightarrow> real" where
  "effectiveBefore project options =
     (case opt_before options of Some b \<Rightarrow> b | None \<Rightarrow> beforeSeconds project)"

definition effectiveAfter :: "DetectionProject \<Rightarrow> GenerateOptions \<Rightarrow> real" where
  "effectiveAfter project options =
     (case opt_after options of Some a \<Rightarrow> a | None \<Rightarrow> afterSeconds project)"

definition enabledDetections :: "DetectionEntry list \<Rightarrow> DetectionEntry list" where
  "enabledDetections ds = filter enabled ds"

definition segmentOfDetection :: "real \<Rightarrow> real \<Rightarrow> DetectionEntry \<Rightarrow> VideoSegment" where
  "segmentOfDetection before after detection =
     \<lparr> startTime = max 0 (entry_timeInSeconds detection - before),
       endTime = entry_timeInSeconds detection + after,
       duration = before + after \<rparr>"

definition generateVideo :: "DetectionProject \<Rightarrow> GenerateOptions \<Rightarrow> GenerateOutcome" where
  "generateVideo project options =
     (let before = effectiveBefore project options;
          after = effectiveAfter project options;
          enabledDs = enabledDetections (detections project)
      in if enabledDs = [] then NoEnabledDetections
         else if preview options then PreviewOnly
         else Concatenate (inputVideoPath project options)
                (map (segmentOfDetection before after) enabledDs))"

text \<open>The segment list of a run, empty when the run hands nothing over.\<close>

definition producedSegments :: "GenerateOutcome \<Rightarrow> VideoSegment list" where
  "producedSegments outcome =
     (case outcome of Concatenate _ segs \<Rightarrow> segs | _ \<Rightarrow> [])"

definition disable :: "nat \<Rightarrow> DetectionProject \<Rightarrow> DetectionProject" where
  "disable i project =
     project\<lparr>detections :=
       (detections project)[i := (detections project ! i)\<lparr>enabled := False\<rparr>]\<rparr>"

section \<open>EventClusterer (deduplicateKillScreens, analyzeDetectionClusters)\<close>

text \<open>
  Failures of the JavaScript run time that the model keeps as values: \<open>reduce\<close> of an empty
  array without an initial value throws a \<open>TypeError\<close>; the mean and maximum of an empty
  size list are \<open>NaN\<close> and \<open>-Infinity\<close>, which are not numbers of the model; the image
  decoder rejects its promise.
\<close>

datatype js_error = TypeError | NonFinite | DecodeRejected

text \<open>
  \<open>KillScreenCluster\<close>; its fields \<open>startTime\<close>, \<open>endTime\<close> and \<open>detections\<close> carry the
  prefix \<open>cl_\<close> here, the plain names being fields of other records.
\<close>

record KillScreenCluster =
  cl_startTime :: real
  cl_endTime :: real
  cl_detections :: "KillScreenTimestamp list"
  averageConfidence :: real
  peakConfidence :: real

definition newCluster :: "KillScreenTimestamp \<Rightarrow> KillScreenCluster" where
  "newCluster killScreen =
     \<lparr> cl_startTime = timeInSeconds killScreen,
       cl_endTime = timeInSeconds killScreen,
       cl_detections = [killScreen],
       averageConfidence = confidence killScreen,
       peakConfidence = confidence killScreen \<rparr>"

definition extendCluster :: "KillScreenCluster \<Rightarrow> KillScreenTimestamp \<Rightarrow> KillScreenCluster" where
  "extendCluster currentCluster killScreen =
     (let ds = cl_detections currentCluster @ [killScreen];
          totalConfidence = foldl (\<lambda>sum d. sum + confidence d) 0 ds
      in \<lparr> cl_startTime = cl_startTime currentCluster,
           cl_endTime = timeInSeconds killScreen,
           cl_detections = ds,
           averageConfidence = totalConfidence / real (length ds),
           peakConfidence = max (peakConfidence currentCluster) (confidence killScreen) \<rparr>)"

text \<open>
  The \<open>for\<close> loop of \<open>deduplicateKillScreens\<close> over the sorted samples; the state is the
  pair of \<open>clusters\<close> and \<open>currentCluster\<close> (\<open>None\<close> for \<open>null\<close>).
\<close>

fun clusterLoop ::
  "real \<Rightarrow> KillScreenTimestamp list \<Rightarrow> KillScreenCluster list \<times> KillScreenCluster option
     \<Rightarrow> KillScreenCluster list \<times> KillScreenCluster option" where
  "clusterLoop mergeWindowSeconds [] st = st"
| "clusterLoop mergeWindowSeconds (killScreen # rest) (clusters, currentCluster) =
     (case currentCluster of
        None \<Rightarrow> clusterLoop mergeWindowSeconds rest (clusters, Some (newCluster killScreen))
      | Some c \<Rightarrow>
          if timeInSeconds killScreen - cl_endTime c > mergeWindowSeconds
          then clusterLoop mergeWindowSeconds rest (clusters @ [c], Some (newCluster killScreen))
          else clusterLoop mergeWindowSeconds rest (clusters, Some (extendCluster c killScreen)))"

text \<open>The push of the last cluster after the loop.\<close>

definition pushLast ::
  "KillScreenCluster list \<times> KillScreenCluster option \<Rightarrow> KillScreenCluster list" where
  "pushLast st = (case snd st of None \<Rightarrow> fst st | Some c \<Rightarrow> fst st @ [c])"

definition mergeClusters :: "real \<Rightarrow> KillScreenTimestamp list \<Rightarrow> KillScreenCluster list" where
  "mergeClusters mergeWindowSeconds sortedKillScreens =
     pushLast (clusterLoop mergeWindowSeconds sortedKillScreens ([], None))"

text \<open>
  \<open>detections.reduce((best, current) => current.confidence > best.confidence ? current : best)\<close>:
  no initial value, so the first element starts and an empty array throws.
\<close>

definition reduceBest :: "KillScreenTimestamp list \<Rightarrow> KillScreenTimestamp option" where
  "reduceBest ds =
     (case ds of
        [] \<Rightarrow> None
      | d # rest \<Rightarrow>
          Some (foldl (\<lambda>best current.
                  if confidence current > confidence best then current else best) d rest))"

text \<open>
  The bonus and the enhanced confidence, \<open>Math.min(0.1, cluster.detections.length * 0.02)\<close>
  and \<open>Math.min(1.0, representative.confidence + continuityBonus)\<close>, in double arithmetic:
  the two literals, the product and the sum are rounded.
\<close>

definition enhance :: "KillScreenCluster \<Rightarrow> KillScreenTimestamp \<Rightarrow> KillScreenTimestamp" where
  "enhance cluster representative =
     (let continuityBonus =
            min (dbl (1/10)) (dbl (real (length (cl_detections cluster)) * dbl (2/100)));
          enhancedConfidence = min 1 (dbl (confidence representative + continuityBonus))
      in representative\<lparr>confidence := enhancedConfidence\<rparr>)"

text \<open>The second \<open>for\<close> loop: size filter, representative, bonus; \<open>filtered\<close> accumulates.\<close>

fun selectLoop ::
  "nat \<Rightarrow> KillScreenCluster list \<Rightarrow> KillScreenTimestamp list
     \<Rightarrow> js_error + KillScreenTimestamp list" where
  "selectLoop minConsecutiveDetections [] filtered = Inr filtered"
| "selectLoop minConsecutiveDetections (cluster # rest) filtered =
     (if length (cl_detections cluster) \<ge> minConsecutiveDetections
      then (case reduceBest (cl_detections cluster) of
              None \<Rightarrow> Inl TypeError
            | Some representative \<Rightarrow>
                selectLoop minConsecutiveDetections rest
                  (filtered @ [enhance cluster representative]))
      else selectLoop minConsecutiveDetections rest filtered)"

definition deduplicateKillScreens ::
  "KillScreenTimestamp list \<Rightarrow> real \<Rightarrow> nat \<Rightarrow> js_error + KillScreenTimestamp list" where
  "deduplicateKillScreens killScreens mergeWindowSeconds minConsecutiveDetections =
     (if killScreens = [] then Inr []
      else let sortedKillScreens = sort_key timeInSeconds killScreens;
               clusters = mergeClusters mergeWindowSeconds sortedKillScreens
           in selectLoop minConsecutiveDetections clusters [])"

text \<open>
  The default values of the two parameters (2 seconds, 2 detections) are not modelled: a
  call gives both. \<open>filtered\<close> starts empty.
\<close>

text \<open>
  \<open>analyzeDetectionClusters\<close> has a loop of its own, a copy of the one above with the
  literal \<open>2\<close> where the other compares with \<open>mergeWindowSeconds\<close>. In its result the
  field \<open>clusters\<close> is \<open>ca_clusters\<close> here. On an empty size list the source would compute
  the mean \<open>0 / 0\<close> and \<open>Math.max()\<close> of nothing; the model answers \<open>NonFinite\<close> there.
\<close>

fun analyzeLoop ::
  "KillScreenTimestamp list \<Rightarrow> KillScreenCluster list \<times> KillScreenCluster option
     \<Rightarrow> KillScreenCluster list \<times> KillScreenCluster option" where
  "analyzeLoop [] st = st"
| "analyzeLoop (killScreen # rest) (clusters, currentCluster) =
     (case currentCluster of
        None \<Rightarrow> analyzeLoop rest (clusters, Some (newCluster killScreen))
      | Some c \<Rightarrow>
          if timeInSeconds killScreen - cl_endTime c > 2
          then analyzeLoop rest (clusters @ [c], Some (newCluster killScreen))
          else analyzeLoop rest (clusters, Some (extendCluster c killScreen)))"

record ClusterAnalysis =
  totalClusters :: nat
  averageClusterSize :: real
  maxClusterSize :: nat
  ca_clusters :: "KillScreenCluster list"

definition analyzeDetectionClusters ::
  "KillScreenTimestamp list \<Rightarrow> js_error + ClusterAnalysis" where
  "analyzeDetectionClusters killScreens =
     (if killScreens = []
      then Inr \<lparr>totalClusters = 0, averageClusterSize = 0, maxClusterSize = 0, ca_clusters = []\<rparr>
      else let sortedKillScreens = sort_key timeInSeconds killScreens;
               cs = pushLast (analyzeLoop sortedKillScreens ([], None));
               clusterSizes = map (\<lambda>c. length (cl_detections c)) cs
           in (case clusterSizes of
                 [] \<Rightarrow> Inl NonFinite
               | s # sizes \<Rightarrow>
                   Inr \<lparr> totalClusters = length cs,
                         averageClusterSize =
                           real (foldl (\<lambda>sum size. sum + size) 0 clusterSizes) / real (length cs),
                         maxClusterSize = foldl max s sizes,
                         ca_clusters = cs \<rparr>))"

text \<open>
  Vocabulary for the properties of the clusterer: \<open>apart w a b\<close> says that sample \<open>a\<close> is
  not later than \<open>b\<close> and that more than \<open>w\<close> seconds separate them;
  \<open>representativeOf\<close> is the record the second loop emits for a cluster with detections.
\<close>

definition apart :: "real \<Rightarrow> KillScreenTimestamp \<Rightarrow> KillScreenTimestamp \<Rightarrow> bool" where
  "apart w a b \<longleftrightarrow> timeInSeconds a \<le> timeInSeconds b \<and> w < timeInSeconds b - timeInSeconds a"

definition clusters_apart :: "real \<Rightarrow> KillScreenCluster \<Rightarrow> KillScreenCluster \<Rightarrow> bool" where
  "clusters_apart w c d \<longleftrightarrow>
     (\<forall>a \<in> set (cl_detections c). \<forall>b \<in> set (cl_detections d). apart w a b)"

definition representativeOf :: "KillScreenCluster \<Rightarrow> KillScreenTimestamp" where
  "representativeOf c = enhance c (the (reduceBest (cl_detections c)))"

text \<open>The size of a cluster, \<open>c.detections.length\<close>.\<close>

definition clusterSize :: "KillScreenCluster \<Rightarrow> nat" where
  "clusterSize c = length (cl_detections c)"

section \<open>FrameScorer (detectGlobalRed)\<close>

text \<open>
  What the decoder returns for one frame: the raw bytes and the \<open>info\<close> fields the scorer
  reads. Decoding itself is outside the model; \<open>detectGlobalRed\<close> below takes the
  decoder's outcome as its argument, \<open>None\<close> when the decoder rejects and the \<open>await\<close>
  throws.
\<close>

record RawImage =
  data :: "8 word list"
  width :: nat
  height :: nat
  channels :: nat

text \<open>
  \<open>data[i]\<close>: the byte as a number, \<open>None\<close> for \<open>undefined\<close> (an index past the end of the
  buffer).
\<close>

definition readByte :: "8 word list \<Rightarrow> nat \<Rightarrow> nat option" where
  "readByte buf i = (if i < length buf then Some (unat (buf ! i)) else None)"

text \<open>
  The per-cell counters and the two whole-frame accumulators that the pixel loop updates.
\<close>

record ScanState =
  cellRedPixels :: nat
  cellTotalPixels :: nat
  cellRedIntensity :: nat
  totalRedPixels :: nat
  redIntensities :: "nat list"

text \<open>
  The body of the innermost loop. A comparison with \<open>undefined\<close> is false in JavaScript, so
  a pixel with a missing byte is not red.
\<close>

definition scanPixel :: "RawImage \<Rightarrow> nat \<Rightarrow> nat \<Rightarrow> ScanState \<Rightarrow> ScanState" where
  "scanPixel img y x st =
     (let pixelOffset = (y * width img + x) * channels img;
          st1 = st\<lparr>cellTotalPixels := cellTotalPixels st + 1\<rparr>
      in case (readByte (data img) pixelOffset,
               readByte (data img) (pixelOffset + 1),
               readByte (data img) (pixelOffset + 2)) of
           (Some r, Some g, Some b) \<Rightarrow>
             if r > g \<and> r > b \<and> r > 100
             then let redIntensity = r - max g b
                  in st1\<lparr>cellRedPixels := cellRedPixels st1 + 1,
                         totalRedPixels := totalRedPixels st1 + 1,
                         cellRedIntensity := cellRedIntensity st1 + redIntensity,
                         redIntensities := redIntensities st1 @ [redIntensity]\<rparr>
             else st1
         | _ \<Rightarrow> st1)"

definition scanRow :: "RawImage \<Rightarrow> nat \<Rightarrow> nat \<Rightarrow> nat \<Rightarrow> ScanState \<Rightarrow> ScanState" where
  "scanRow img startX endX y st = fold (scanPixel img y) [startX..<endX] st"

definition scanCell ::
  "RawImage \<Rightarrow> nat \<Rightarrow> nat \<Rightarrow> nat \<Rightarrow> nat \<Rightarrow> ScanState \<Rightarrow> ScanState" where
  "scanCell img startX endX startY endY st =
     fold (scanRow img startX endX) [startY..<endY] st"

text \<open>
  An entry of \<open>redCells\<close>; its fields \<open>x\<close>, \<open>y\<close> and \<open>avgRedIntensity\<close> are \<open>cellX\<close>,
  \<open>cellY\<close> and \<open>cellAvgRedIntensity\<close> here.
\<close>

record RedCell =
  cellX :: nat
  cellY :: nat
  redRatio :: real
  cellAvgRedIntensity :: real

text \<open>
  The state of the two grid loops: \<open>totalRedPixels\<close>, \<open>redIntensities\<close> and \<open>redCells\<close>.
\<close>

type_synonym GridState = "nat \<times> nat list \<times> RedCell list"

definition gridSize :: nat where
  "gridSize = 3"

definition analyzeCell :: "RawImage \<Rightarrow> nat \<Rightarrow> nat \<Rightarrow> GridState \<Rightarrow> GridState" where
  "analyzeCell img gridY gridX gs =
     (case gs of (totalRed, intensities, redCells) \<Rightarrow>
        let cellWidth = width img div gridSize;
            cellHeight = height img div gridSize;
            startX = gridX * cellWidth;
            startY = gridY * cellHeight;
            endX = min (startX + cellWidth) (width img);
            endY = min (startY + cellHeight) (height img);
            st = scanCell img startX endX startY endY
                   \<lparr>cellRedPixels = 0, cellTotalPixels = 0, cellRedIntensity = 0,
                    totalRedPixels = totalRed, redIntensities = intensities\<rparr>;
            cellRedRatio =
              (if cellTotalPixels st > 0
               then real (cellRedPixels st) / real (cellTotalPixels st) else 0)
        in (totalRedPixels st, redIntensities st,
            redCells @
              [\<lparr>cellX = gridX, cellY = gridY, redRatio = cellRedRatio,
                cellAvgRedIntensity =
                  (if cellRedPixels st > 0
                   then real (cellRedIntensity st) / real (cellRedPixels st) else 0)\<rparr>]))"

definition scanGrid :: "RawImage \<Rightarrow> GridState" where
  "scanGrid img =
     fold (\<lambda>gridY gs. fold (analyzeCell img gridY) [0..<gridSize] gs) [0..<gridSize]
       (0, [], [])"

text \<open>
  \<open>GlobalRedResult\<close> without the file name; the eight \<open>details\<close> fields are flattened into
  the record, \<open>details.redIntensity\<close> keeping the name of the variable it is set from.
\<close>

record GlobalRedResult =
  isKillScreen :: bool
  killScore :: real
  globalRedCoverage :: real
  globalRedCoverageScore :: real
  redUniformity :: real
  redUniformityScore :: real
  avgRedIntensity :: real
  redIntensityScore :: real
  nonRedArea :: real
  nonRedAreaScore :: real

text \<open>
  The scoring of a decoded frame. With \<open>width * height = 0\<close> the source divides by zero and
  its scores are \<open>NaN\<close>: the model returns \<open>NonFinite\<close> there, which stands for a result and
  not for an exception.
\<close>

definition scoreFrame :: "RawImage \<Rightarrow> js_error + GlobalRedResult" where
  "scoreFrame img =
     (let totalPixels = width img * height img in
      if totalPixels = 0 then Inl NonFinite
      else
        case scanGrid img of (totalRed, intensities, redCells) \<Rightarrow>
          let coverage = real totalRed / real totalPixels;
              coverageScore = min 1 (coverage * 2);
              redCellCount = length (filter (\<lambda>cell. redRatio cell > 3/10) redCells);
              uniformity = real redCellCount / real (gridSize * gridSize);
              uniformityScore = uniformity;
              avgIntensity =
                (if length intensities > 0
                 then real (foldl (\<lambda>sum intensity. sum + intensity) 0 intensities)
                        / real (length intensities)
                 else 0);
              intensityScore = min 1 (avgIntensity / 100);
              nonRed = 1 - coverage;
              nonRedScore = max 0 (1 - nonRed * 3);
              score = coverageScore * (4/10) + uniformityScore * (3/10)
                        + intensityScore * (2/10) + nonRedScore * (1/10)
          in Inr \<lparr>isKillScreen = (score > 8/10),
                   killScore = score,
                   globalRedCoverage = coverage,
                   globalRedCoverageScore = coverageScore,
                   redUniformity = uniformity,
                   redUniformityScore = uniformityScore,
                   avgRedIntensity = avgIntensity,
                   redIntensityScore = intensityScore,
                   nonRedArea = nonRed,
                   nonRedAreaScore = nonRedScore\<rparr>)"

definition detectGlobalRed :: "RawImage option \<Rightarrow> js_error + GlobalRedResult" where
  "detectGlobalRed decoded =
     (case decoded of None \<Rightarrow> Inl DecodeRejected | Some img \<Rightarrow> scoreFrame img)"


section \<open>Detector (KillScreenDetector)\<close>





section \<open>The clusterer over an explicit store\<close>

text \<open>
  JavaScript arrays and objects are references: the argument \<open>killScreens\<close> is the caller's
  array, and its elements are the caller's objects. To say what the two functions write, this
  section repeats them over a store. An array is an address holding a list of object
  addresses; an object is an address holding a \<open>KillScreenTimestamp\<close>. Addresses below
  \<open>nextArr\<close> and \<open>nextObj\<close> are allocated, allocation takes the next address. The cluster
  objects and the \<open>clusters\<close> array are created inside the call and are kept as values; the
  \<open>detections\<close> array of a cluster lives in the store, since \<open>push\<close> updates it in place and
  its elements are the caller's objects.
\<close>

type_synonym ref = nat

record Heap =
  arrays :: "ref \<Rightarrow> ref list"
  objects :: "ref \<Rightarrow> KillScreenTimestamp"
  nextArr :: ref
  nextObj :: ref

text \<open>An array literal or a spread copy \<open>[...xs]\<close>: a new array.\<close>

definition allocArray :: "ref list \<Rightarrow> Heap \<Rightarrow> ref \<times> Heap" where
  "allocArray elems h =
     (nextArr h, h\<lparr>arrays := (arrays h)(nextArr h := elems), nextArr := nextArr h + 1\<rparr>)"

text \<open>An object literal or a spread copy \<open>{...o, confidence: c}\<close>: a new object.\<close>

definition allocObject :: "KillScreenTimestamp \<Rightarrow> Heap \<Rightarrow> ref \<times> Heap" where
  "allocObject v h =
     (nextObj h, h\<lparr>objects := (objects h)(nextObj h := v), nextObj := nextObj h + 1\<rparr>)"

text \<open>\<open>arr.push(x)\<close> writes the array at \<open>arr\<close>.\<close>

definition pushArray :: "ref \<Rightarrow> ref \<Rightarrow> Heap \<Rightarrow> Heap" where
  "pushArray arr x h = h\<lparr>arrays := (arrays h)(arr := arrays h arr @ [x])\<rparr>"

text \<open>
  \<open>arr.sort((a, b) => a.timeInSeconds - b.timeInSeconds)\<close> sorts the array at \<open>arr\<close> in place
  (and stably); the comparator reads the objects.
\<close>

definition sortInPlace :: "ref \<Rightarrow> Heap \<Rightarrow> Heap" where
  "sortInPlace arr h =
     h\<lparr>arrays := (arrays h)(arr := sort_key (\<lambda>r. timeInSeconds (objects h r)) (arrays h arr))\<rparr>"

record HCluster =
  h_startTime :: real
  h_endTime :: real
  h_detections :: ref
  h_averageConfidence :: real
  h_peakConfidence :: real

definition hNewCluster :: "ref \<Rightarrow> Heap \<Rightarrow> HCluster \<times> Heap" where
  "hNewCluster killScreen h =
     (let k = objects h killScreen;
          (d, h1) = allocArray [killScreen] h
      in (\<lparr> h_startTime = timeInSeconds k, h_endTime = timeInSeconds k, h_detections = d,
             h_averageConfidence = confidence k, h_peakConfidence = confidence k \<rparr>, h1))"

definition hExtendCluster :: "HCluster \<Rightarrow> ref \<Rightarrow> Heap \<Rightarrow> HCluster \<times> Heap" where
  "hExtendCluster currentCluster killScreen h =
     (let k = objects h killScreen;
          h1 = pushArray (h_detections currentCluster) killScreen h;
          ds = arrays h1 (h_detections currentCluster);
          totalConfidence = foldl (\<lambda>sum d. sum + confidence (objects h1 d)) 0 ds
      in (\<lparr> h_startTime = h_startTime currentCluster,
             h_endTime = timeInSeconds k,
             h_detections = h_detections currentCluster,
             h_averageConfidence = totalConfidence / real (length ds),
             h_peakConfidence = max (h_peakConfidence currentCluster) (confidence k) \<rparr>, h1))"

type_synonym HLoopState = "HCluster list \<times> HCluster option \<times> Heap"

fun hClusterLoop :: "real \<Rightarrow> ref list \<Rightarrow> HLoopState \<Rightarrow> HLoopState" where
  "hClusterLoop mergeWindowSeconds [] st = st"
| "hClusterLoop mergeWindowSeconds (killScreen # rest) (clusters, currentCluster, h) =
     (case currentCluster of
        None \<Rightarrow>
          (let (c', h') = hNewCluster killScreen h
           in hClusterLoop mergeWindowSeconds rest (clusters, Some c', h'))
      | Some c \<Rightarrow>
          if timeInSeconds (objects h killScreen) - h_endTime c > mergeWindowSeconds
          then (let (c', h') = hNewCluster killScreen h
                in hClusterLoop mergeWindowSeconds rest (clusters @ [c], Some c', h'))
          else (let (c', h') = hExtendCluster c killScreen h
                in hClusterLoop mergeWindowSeconds rest (clusters, Some c', h')))"

fun hAnalyzeLoop :: "ref list \<Rightarrow> HLoopState \<Rightarrow> HLoopState" where
  "hAnalyzeLoop [] st = st"
| "hAnalyzeLoop (killScreen # rest) (clusters, currentCluster, h) =
     (case currentCluster of
        None \<Rightarrow>
          (let (c', h') = hNewCluster killScreen h
           in hAnalyzeLoop rest (clusters, Some c', h'))
      | Some c \<Rightarrow>
          if timeInSeconds (objects h killScreen) - h_endTime c > 2
          then (let (c', h') = hNewCluster killScreen h
                in hAnalyzeLoop rest (clusters @ [c], Some c', h'))
          else (let (c', h') = hExtendCluster c killScreen h
                in hAnalyzeLoop rest (clusters, Some c', h')))"

definition hPushLast :: "HCluster list \<times> HCluster option \<Rightarrow> HCluster list" where
  "hPushLast st = (case snd st of None \<Rightarrow> fst st | Some c \<Rightarrow> fst st @ [c])"

definition hReduceBest :: "Heap \<Rightarrow> ref list \<Rightarrow> ref option" where
  "hReduceBest h ds =
     (case ds of
        [] \<Rightarrow> None
      | d # rest \<Rightarrow>
          Some (foldl (\<lambda>best current.
                  if confidence (objects h current) > confidence (objects h best)
                  then current else best) d rest))"

text \<open>
  The selection loop; \<open>filtered\<close> is the address of the result array. The record pushed is a
  new object, the spread copy of the representative with the confidence replaced.
\<close>

fun hSelectLoop :: "nat \<Rightarrow> HCluster list \<Rightarrow> ref \<Rightarrow> Heap \<Rightarrow> (js_error + ref) \<times> Heap" where
  "hSelectLoop minConsecutiveDetections [] filtered h = (Inr filtered, h)"
| "hSelectLoop minConsecutiveDetections (cluster # rest) filtered h =
     (let ds = arrays h (h_detections cluster) in
      if length ds \<ge> minConsecutiveDetections
      then (case hReduceBest h ds of
              None \<Rightarrow> (Inl TypeError, h)
            | Some representative \<Rightarrow>
                let continuityBonus = min (dbl (1/10)) (dbl (real (length ds) * dbl (2/100)));
                    enhancedConfidence =
                      min 1 (dbl (confidence (objects h representative) + continuityBonus));
                    (entry, h1) =
                      allocObject
                        ((objects h representative)\<lparr>confidence := enhancedConfidence\<rparr>) h;
                    h2 = pushArray filtered entry h1
                in hSelectLoop minConsecutiveDetections rest filtered h2)
      else hSelectLoop minConsecutiveDetections rest filtered h)"

definition hDeduplicateKillScreens ::
  "ref \<Rightarrow> real \<Rightarrow> nat \<Rightarrow> Heap \<Rightarrow> (js_error + ref) \<times> Heap" where
  "hDeduplicateKillScreens killScreens mergeWindowSeconds minConsecutiveDetections h =
     (if arrays h killScreens = []
      then (let (empty, h1) = allocArray [] h in (Inr empty, h1))
      else let (sortedKillScreens, h1) = allocArray (arrays h killScreens) h;
               h2 = sortInPlace sortedKillScreens h1;
               (clusters, currentCluster, h3) =
                 hClusterLoop mergeWindowSeconds (arrays h2 sortedKillScreens) ([], None, h2);
               (filtered, h4) = allocArray [] h3
           in hSelectLoop minConsecutiveDetections
                (hPushLast (clusters, currentCluster)) filtered h4)"

record HClusterAnalysis =
  h_totalClusters :: nat
  h_averageClusterSize :: real
  h_maxClusterSize :: nat
  h_clusters :: "HCluster list"

definition hAnalyzeDetectionClusters :: "ref \<Rightarrow> Heap \<Rightarrow> (js_error + HClusterAnalysis) \<times> Heap" where
  "hAnalyzeDetectionClusters killScreens h =
     (if arrays h killScreens = []
      then (Inr \<lparr>h_totalClusters = 0, h_averageClusterSize = 0, h_maxClusterSize = 0,
                 h_clusters = []\<rparr>, h)
      else let (sortedKillScreens, h1) = allocArray (arrays h killScreens) h;
               h2 = sortInPlace sortedKillScreens h1;
               (clusters, currentCluster, h3) =
                 hAnalyzeLoop (arrays h2 sortedKillScreens) ([], None, h2);
               cs = hPushLast (clusters, currentCluster);
               clusterSizes = map (\<lambda>c. length (arrays h3 (h_detections c))) cs
           in (case clusterSizes of
                 [] \<Rightarrow> (Inl NonFinite, h3)
               | s # sizes \<Rightarrow>
                   (Inr \<lparr> h_totalClusters = length cs,
                          h_averageClusterSize =
                            real (foldl (\<lambda>sum size. sum + size) 0 clusterSizes)
                              / real (length cs),
                          h_maxClusterSize = foldl max s sizes,
                          h_clusters = cs \<rparr>, h3)))"

text \<open>
  The store \<open>h'\<close> after a call keeps every array and every object that was allocated in the
  store \<open>h\<close> before it.
\<close>

definition preserves :: "Heap \<Rightarrow> Heap \<Rightarrow> bool" where
  "preserves h h' \<longleftrightarrow>
     nextArr h \<le> nextArr h' \<and> nextObj h \<le> nextObj h' \<and>
     (\<forall>a < nextArr h. arrays h' a = arrays h a) \<and>
     (\<forall>r < nextObj h. objects h' r = objects h r)"

text \<open>The values an array holds: its elements, dereferenced.\<close>

definition contents :: "Heap \<Rightarrow> ref \<Rightarrow> KillScreenTimestamp list" where
  "contents h a = map (objects h) (arrays h a)"

text \<open>
  Vocabulary for the properties of the store: \<open>owned\<close> says that the \<open>detections\<close> arrays of
  the clusters built so far were allocated during the call; \<open>separate\<close> that they are
  pairwise different allocated arrays holding allocated objects; \<open>absCluster\<close> and
  \<open>absAnalysis\<close> read a cluster and an analysis result out of the store as the values of the
  functional model.
\<close>

definition owned :: "Heap \<Rightarrow> HCluster list \<times> HCluster option \<Rightarrow> bool" where
  "owned h0 st \<longleftrightarrow> (\<forall>c \<in> set (hPushLast st). nextArr h0 \<le> h_detections c)"

definition separate :: "Heap \<Rightarrow> HCluster list \<Rightarrow> bool" where
  "separate h cs \<longleftrightarrow>
     distinct (map h_detections cs) \<and>
     (\<forall>c \<in> set cs. h_detections c < nextArr h \<and>
        (\<forall>r \<in> set (arrays h (h_detections c)). r < nextObj h))"

definition absCluster :: "Heap \<Rightarrow> HCluster \<Rightarrow> KillScreenCluster" where
  "absCluster h c =
     \<lparr> cl_startTime = h_startTime c, cl_endTime = h_endTime c,
       cl_detections = contents h (h_detections c),
       averageConfidence = h_averageConfidence c,
       peakConfidence = h_peakConfidence c \<rparr>"

definition absAnalysis :: "Heap \<Rightarrow> HClusterAnalysis \<Rightarrow> ClusterAnalysis" where
  "absAnalysis h a =
     \<lparr> totalClusters = h_totalClusters a,
       averageClusterSize = h_averageClusterSize a,
       maxClusterSize = h_maxClusterSize a,
       ca_clusters = map (absCluster h) (h_clusters a) \<rparr>"

text \<open>
  A store with one array at address 0 holding two samples, the later one first.
\<close>

definition twoUnsorted :: Heap where
  "twoUnsorted =
     \<lparr> arrays = (\<lambda>a. [])(0 := [0, 1]),
       objects = (\<lambda>r. \<lparr>frameNumber = 0, timeInSeconds = 0, confidence = 0\<rparr>)
         (0 := \<lparr>frameNumber = 25, timeInSeconds = 5, confidence = 7/8\<rparr>,
          1 := \<lparr>frameNumber = 20, timeInSeconds = 4, confidence = 3/4\<rparr>),
       nextArr = 1, nextObj = 2 \<rparr>"

text \<open>
  Vocabulary for frames of pure red: \<open>pureRed\<close> says that the buffer has the length its
  header announces, at least three channels, and the bytes \<open>(255, 0, 0)\<close> at every pixel;
  \<open>countRed n\<close> is what scanning \<open>n\<close> such pixels does to the counters, and
  \<open>redCell k\<close> is the cell record of a cell of \<open>k\<close> such pixels.
\<close>

definition pureRed :: "RawImage \<Rightarrow> bool" where
  "pureRed img \<longleftrightarrow>
     3 \<le> channels img \<and>
     length (data img) = width img * height img * channels img \<and>
     (\<forall>p < width img * height img.
        data img ! (p * channels img) = 255 \<and>
        data img ! (p * channels img + 1) = 0 \<and>
        data img ! (p * channels img + 2) = 0)"

definition countRed :: "nat \<Rightarrow> ScanState \<Rightarrow> ScanState" where
  "countRed n st =
     \<lparr>cellRedPixels = cellRedPixels st + n,
      cellTotalPixels = cellTotalPixels st + n,
      cellRedIntensity = cellRedIntensity st + n * 255,
      totalRedPixels = totalRedPixels st + n,
      redIntensities = redIntensities st @ replicate n 255\<rparr>"

definition redCell :: "nat \<Rightarrow> nat \<Rightarrow> nat \<Rightarrow> RedCell" where
  "redCell k gridY gridX =
     \<lparr>cellX = gridX, cellY = gridY, redRatio = (if k > 0 then 1 else 0),
      cellAvgRedIntensity = (if k > 0 then 255 else 0)\<rparr>"

section \<open>Frames used as concrete inputs\<close>

text \<open>
  Three small RGB frames, row-major, three channels: a 3x3 frame whose first five pixels are
  pure red and whose last four are black; a 4x4 frame of pure red; and a 6x6 frame in which
  each of the nine 2x2 grid cells has three pure red pixels and one black pixel, 27 red pixels
  of 36.
\<close>

definition fiveOfNineRed :: RawImage where
  "fiveOfNineRed =
     \<lparr>data = [255,0,0, 255,0,0, 255,0,0,
              255,0,0, 255,0,0, 0,0,0,
              0,0,0, 0,0,0, 0,0,0],
      width = 3, height = 3, channels = 3\<rparr>"

definition allRed4x4 :: RawImage where
  "allRed4x4 =
     \<lparr>data = [255,0,0, 255,0,0, 255,0,0, 255,0,0,
              255,0,0, 255,0,0, 255,0,0, 255,0,0,
              255,0,0, 255,0,0, 255,0,0, 255,0,0,
              255,0,0, 255,0,0, 255,0,0, 255,0,0],
      width = 4, height = 4, channels = 3\<rparr>"

definition threeQuartersRed :: RawImage where
  "threeQuartersRed =
     \<lparr>data = [255,0,0, 255,0,0, 255,0,0, 255,0,0, 255,0,0, 255,0,0,
              255,0,0, 0,0,0,   255,0,0, 0,0,0,   255,0,0, 0,0,0,
              255,0,0, 255,0,0, 255,0,0, 255,0,0, 255,0,0, 255,0,0,
              255,0,0, 0,0,0,   255,0,0, 0,0,0,   255,0,0, 0,0,0,
              255,0,0, 255,0,0, 255,0,0, 255,0,0, 255,0,0, 255,0,0,
              255,0,0, 0,0,0,   255,0,0, 0,0,0,   255,0,0, 0,0,0],
      width = 6, height = 6, channels = 3\<rparr>"

section \<open>IEEE-754 double rounding: the exponent search, some values\<close>

lemma binade_numeral:
  "binade (numeral k) a e =
     (if 2 \<le> a then binade (pred_numeral k) (a / 2) (e + 1)
      else if a < 1 then binade (pred_numeral k) (a * 2) (e - 1)
      else e)"
  by (simp add: numeral_eq_Suc)

lemma binade_one:
  "binade 1 a e = (if 2 \<le> a then e + 1 else if a < 1 then e - 1 else e)"
  unfolding One_nat_def by simp

lemmas dbl_eval = dbl_def roundHalfEven_def Let_def binade_numeral binade_one


lemma two_powi_Suc: "(2::real) powi (k + 1) = 2 * 2 powi k"
  by (simp add: power_int_add)

lemma binade_exponent:
  assumes "0 < a"
    and "1 \<le> a \<Longrightarrow> a < 2 \<Longrightarrow> 1 \<le> n"
    and "2 \<le> a \<Longrightarrow> a \<le> real n"
    and "a < 1 \<Longrightarrow> 1 / a \<le> real n"
  shows "2 powi (binade n a e - e) \<le> a \<and> a < 2 powi (binade n a e - e + 1)"
  using assms
proof (induction n arbitrary: a e)
  case 0
  have "1 \<le> a \<or> a < 1" by linarith
  then show ?case
  proof
    assume "1 \<le> a"
    then show ?thesis using "0.prems"(2,3) by (cases "a < 2") auto
  next
    assume "a < 1"
    then have "1 / a \<le> 0" using "0.prems"(4) by simp
    then show ?thesis using "0.prems"(1) by (simp add: field_simps)
  qed
next
  case (Suc n)
  consider (big) "2 \<le> a" | (small) "a < 1" | (mid) "1 \<le> a" "a < 2" by linarith
  then show ?case
  proof cases
    case big
    let ?b = "binade n (a / 2) (e + 1)"
    have n1: "1 \<le> n" using Suc.prems(3) [OF big] big by linarith
    have "2 powi (?b - (e + 1)) \<le> a / 2 \<and> a / 2 < 2 powi (?b - (e + 1) + 1)"
    proof (rule Suc.IH)
      show "0 < a / 2" using big by simp
      show "1 \<le> n" by (rule n1)
      show "a / 2 \<le> real n" if "2 \<le> a / 2"
        using that Suc.prems(3) [OF big] by simp
      show "1 / (a / 2) \<le> real n" if "a / 2 < 1"
        using that big by simp
    qed
    moreover have "(2::real) powi (?b - e) = 2 * 2 powi (?b - (e + 1))"
      using two_powi_Suc [of "?b - (e + 1)"] by simp
    moreover have "(2::real) powi (?b - e + 1) = 2 * 2 powi (?b - (e + 1) + 1)"
      using two_powi_Suc [of "?b - (e + 1) + 1"] by (simp add: algebra_simps)
    ultimately show ?thesis using big by simp
  next
    case small
    let ?b = "binade n (a * 2) (e - 1)"
    have inv: "1 < 1 / a" using small Suc.prems(1) by simp
    then have n1: "1 \<le> n" using Suc.prems(4) [OF small] by linarith
    have "2 powi (?b - (e - 1)) \<le> a * 2 \<and> a * 2 < 2 powi (?b - (e - 1) + 1)"
    proof (rule Suc.IH)
      show "0 < a * 2" using Suc.prems(1) by simp
      show "1 \<le> n" by (rule n1)
      show "a * 2 \<le> real n" if "2 \<le> a * 2"
        using that small by simp
      show "1 / (a * 2) \<le> real n" if "a * 2 < 1"
      proof -
        have "1 / (a * 2) = (1 / a) / 2" by simp
        also have "\<dots> \<le> (real n + 1) / 2"
          using Suc.prems(4) [OF small] by simp
        also have "\<dots> \<le> real n" using n1 by simp
        finally show ?thesis .
      qed
    qed
    moreover have "(2::real) powi (?b - (e - 1)) = 2 * 2 powi (?b - e)"
      using two_powi_Suc [of "?b - e"] by (simp add: algebra_simps)
    moreover have "(2::real) powi (?b - (e - 1) + 1) = 2 * 2 powi (?b - e + 1)"
      using two_powi_Suc [of "?b - e + 1"] by (simp add: algebra_simps)
    ultimately show ?thesis using small by simp
  next
    case mid
    then show ?thesis by simp
  qed
qed

lemma binade_enough:
  assumes "0 < a"
  shows "2 powi (binade (nat \<lceil>max a (1 / a)\<rceil>) a 0) \<le> a \<and>
         a < 2 powi (binade (nat \<lceil>max a (1 / a)\<rceil>) a 0 + 1)"
proof -
  let ?n = "nat \<lceil>max a (1 / a)\<rceil>"
  have le: "max a (1 / a) \<le> real ?n"
    by (metis of_nat_ceiling)
  have "2 powi (binade ?n a 0 - 0) \<le> a \<and> a < 2 powi (binade ?n a 0 - 0 + 1)"
  proof (rule binade_exponent [OF assms])
    show "1 \<le> ?n" if "1 \<le> a" "a < 2"
      using le that by (metis max.bounded_iff of_nat_1 of_nat_le_iff order_trans)
    show "a \<le> real ?n" if "2 \<le> a" using le by simp
    show "1 / a \<le> real ?n" if "a < 1" using le by simp
  qed
  then show ?thesis by simp
qed

text \<open>The integer chosen is within one half of the number rounded.\<close>

lemma roundHalfEven_near: "\<bar>of_int (roundHalfEven q) - q\<bar> \<le> 1/2"
  unfolding roundHalfEven_def Let_def by (auto simp: abs_if) linarith+

text \<open>
  In the normal and subnormal range up to \<open>2\<^sup>5\<^sup>3\<close>, \<open>dbl x\<close> is within half a unit in the last
  place of \<open>x\<close>, the exponent \<open>e\<close> being the one the search finds.
\<close>

lemma dbl_near:
  assumes "0 < x" and "binade (nat \<lceil>max x (1 / x)\<rceil>) x 0 = e"
    and "- 1022 \<le> e" and "e \<le> 52"
  shows "\<bar>dbl x - x\<bar> \<le> 1 / 2 ^ nat (53 - e)"
proof -
  define n where "n = nat (52 - e)"
  define P :: real where "P = 2 ^ n"
  have P: "0 < P" by (simp add: P_def)
  have d: "dbl x = of_int (roundHalfEven (x * P)) / P"
    using assms by (simp add: dbl_def Let_def n_def P_def)
  have "\<bar>dbl x - x\<bar> = \<bar>of_int (roundHalfEven (x * P)) - x * P\<bar> / P"
    using P by (simp add: d field_simps abs_divide)
  also have "\<dots> \<le> (1/2) / P"
    using roundHalfEven_near [of "x * P"] P by (intro divide_right_mono) simp_all
  also have "\<dots> = 1 / 2 ^ nat (53 - e)"
  proof -
    have "nat (53 - e) = Suc n" using assms(4) by (simp add: n_def)
    then show ?thesis by (simp add: P_def)
  qed
  finally show ?thesis .
qed

text \<open>
  The literals of the clusterer and of the three-sample example, as doubles; \<open>0.91\<close> is
  \<open>8196551321814303 / 2\<^sup>5\<^sup>3\<close>.
\<close>

lemma dbl_of_literals:
  "dbl (1/10) = 3602879701896397 / 36028797018963968"
  "dbl (2/100) = 5764607523034235 / 288230376151711744"
  "dbl (79/100) = 889460926405673 / 1125899906842624"
  "dbl (82/100) = 7385903388887613 / 9007199254740992"
  "dbl (85/100) = 7656119366529843 / 9007199254740992"
  "dbl (91/100) = 8196551321814303 / 9007199254740992"
  "dbl (1002/10) = 7050948166601933 / 70368744177664"
  "dbl (1004/10) = 3532510957718733 / 35184372088832"
  by (simp_all add: dbl_eval)

section \<open>SegmentPlanner: the planned interval\<close>

text \<open>
  C7. For every list of event records and every lead and trail, the planner returns one
  segment per record, in order; the segment of the record at position \<open>i\<close> starts at
  \<open>max 0 (t - lead)\<close>, ends at \<open>t + trail\<close> and carries \<open>duration = lead + trail\<close>, also when the
  start was clamped to 0. At \<open>t = 1\<close>, \<open>lead = 3\<close>, \<open>trail = 2\<close> the segment is \<open>(0, 3, 5)\<close>.
\<close>

theorem createVideoSegments_spec:
  "length (createVideoSegments tss lead trail) = length tss \<and>
   (\<forall>i < length tss.
      startTime (createVideoSegments tss lead trail ! i)
        = max 0 (timeInSeconds (tss ! i) - lead) \<and>
      endTime (createVideoSegments tss lead trail ! i) = timeInSeconds (tss ! i) + trail \<and>
      duration (createVideoSegments tss lead trail ! i) = lead + trail \<and>
      0 \<le> startTime (createVideoSegments tss lead trail ! i)) \<and>
   createVideoSegments [\<lparr>frameNumber = n, timeInSeconds = 1, confidence = c\<rparr>] 3 2
     = [\<lparr>startTime = 0, endTime = 3, duration = 5\<rparr>]"
  by (simp add: createVideoSegments_def)

theorem createVideoSegments_spec_witness:
  "(0::nat) < length [\<lparr>frameNumber = 5, timeInSeconds = 1, confidence = 9/10\<rparr>] \<and>
   startTime (createVideoSegments
      [\<lparr>frameNumber = 5, timeInSeconds = 1, confidence = 9/10\<rparr>] 3 2 ! 0) = 0 \<and>
   duration (createVideoSegments
      [\<lparr>frameNumber = 5, timeInSeconds = 1, confidence = 9/10\<rparr>] 3 2 ! 0) = 5"
  using createVideoSegments_spec
    [of "[\<lparr>frameNumber = 5, timeInSeconds = 1, confidence = 9/10\<rparr>]" 3 2 0 0]
  by simp

section \<open>Generation run: disabling one record\<close>

lemma enabledDetections_append:
  "enabledDetections (xs @ ys) = enabledDetections xs @ enabledDetections ys"
  by (simp add: enabledDetections_def)

lemma list_split_at:
  assumes "i < length ds"
  shows "ds = take i ds @ ds ! i # drop (Suc i) ds"
  using assms by (simp add: id_take_nth_drop)

lemma list_update_split_at:
  assumes "i < length ds"
  shows "ds[i := v] = take i ds @ v # drop (Suc i) ds"
  using assms by (simp add: upd_conv_take_nth_drop)

text \<open>
  C9. In a generation run that is not a preview, the segments handed over are those of the
  enabled records, in order. Setting \<open>enabled = False\<close> on the enabled record at position
  \<open>i\<close> removes that record's segment and nothing else: the segments of the records before
  and after it are the same and in the same order. (When it was the only enabled record the
  run returns early and hands over no segment.)
\<close>

theorem generateVideo_disable_one:
  assumes "i < length (detections project)"
    and "enabled (detections project ! i)"
    and "\<not> preview options"
  shows "producedSegments (generateVideo project options) =
           map (segmentOfDetection (effectiveBefore project options)
                  (effectiveAfter project options))
             (filter enabled (detections project)) \<and>
         producedSegments (generateVideo project options) =
           producedSegments (generateVideo
               (project\<lparr>detections := take i (detections project)\<rparr>) options)
           @ [segmentOfDetection (effectiveBefore project options)
                (effectiveAfter project options) (detections project ! i)]
           @ producedSegments (generateVideo
               (project\<lparr>detections := drop (Suc i) (detections project)\<rparr>) options) \<and>
         producedSegments (generateVideo (disable i project) options) =
           producedSegments (generateVideo
               (project\<lparr>detections := take i (detections project)\<rparr>) options)
           @ producedSegments (generateVideo
               (project\<lparr>detections := drop (Suc i) (detections project)\<rparr>) options)"
proof -
  let ?ds = "detections project"
  let ?seg = "segmentOfDetection (effectiveBefore project options)
                (effectiveAfter project options)"
  have produced: "producedSegments (generateVideo p options) =
      map (segmentOfDetection (effectiveBefore p options) (effectiveAfter p options))
        (enabledDetections (detections p))" for p
    using assms(3)
    by (simp add: generateVideo_def producedSegments_def Let_def)
  have same_opts: "effectiveBefore (project\<lparr>detections := xs\<rparr>) options
        = effectiveBefore project options \<and>
      effectiveAfter (project\<lparr>detections := xs\<rparr>) options
        = effectiveAfter project options" for xs
    by (simp add: effectiveBefore_def effectiveAfter_def split: option.splits)
  have whole: "enabledDetections ?ds =
      enabledDetections (take i ?ds) @ ?ds ! i # enabledDetections (drop (Suc i) ?ds)"
  proof -
    have "enabledDetections ?ds
        = enabledDetections (take i ?ds @ ?ds ! i # drop (Suc i) ?ds)"
      using list_split_at [OF assms(1)] by simp
    then show ?thesis
      using assms(2) by (simp add: enabledDetections_def)
  qed
  have rest: "enabledDetections (?ds[i := (?ds ! i)\<lparr>enabled := False\<rparr>]) =
      enabledDetections (take i ?ds) @ enabledDetections (drop (Suc i) ?ds)"
    by (simp add: list_update_split_at [OF assms(1)] enabledDetections_def)
  show ?thesis
    using whole rest
    by (simp add: produced same_opts disable_def enabledDetections_def)
qed

theorem generateVideo_disable_one_witness:
  "producedSegments (generateVideo (disable 1
      \<lparr>inputVideo = ''v.mp4'', beforeSeconds = 3, afterSeconds = 2,
        detections =
          [\<lparr>entry_id = 1, entry_timeInSeconds = 1, entry_frameNumber = 5,
             entry_confidence = 9/10, enabled = True, entry_note = None\<rparr>,
           \<lparr>entry_id = 2, entry_timeInSeconds = 10, entry_frameNumber = 50,
             entry_confidence = 9/10, enabled = True, entry_note = None\<rparr>,
           \<lparr>entry_id = 3, entry_timeInSeconds = 20, entry_frameNumber = 100,
             entry_confidence = 9/10, enabled = True, entry_note = None\<rparr>]\<rparr>)
      \<lparr>opt_input = None, opt_before = None, opt_after = None, preview = False\<rparr>)
   = [\<lparr>startTime = 0, endTime = 3, duration = 5\<rparr>,
      \<lparr>startTime = 17, endTime = 22, duration = 5\<rparr>]"
  using generateVideo_disable_one [of 1
      "\<lparr>inputVideo = ''v.mp4'', beforeSeconds = 3, afterSeconds = 2,
        detections =
          [\<lparr>entry_id = 1, entry_timeInSeconds = 1, entry_frameNumber = 5,
             entry_confidence = 9/10, enabled = True, entry_note = None\<rparr>,
           \<lparr>entry_id = 2, entry_timeInSeconds = 10, entry_frameNumber = 50,
             entry_confidence = 9/10, enabled = True, entry_note = None\<rparr>,
           \<lparr>entry_id = 3, entry_timeInSeconds = 20, entry_frameNumber = 100,
             entry_confidence = 9/10, enabled = True, entry_note = None\<rparr>]\<rparr>"
      "\<lparr>opt_input = None, opt_before = None, opt_after = None, preview = False\<rparr>"]
  by (simp add: generateVideo_def producedSegments_def enabledDetections_def
      segmentOfDetection_def effectiveBefore_def effectiveAfter_def Let_def)

section \<open>EventClusterer: the merge loop and the selection loop\<close>

lemma analyzeLoop_eq: "analyzeLoop ks st = clusterLoop 2 ks st"
  by (induction ks st rule: analyzeLoop.induct) (auto split: option.splits)

lemma cl_newCluster [simp]:
  "cl_detections (newCluster k) = [k]" "cl_endTime (newCluster k) = timeInSeconds k"
  by (simp_all add: newCluster_def)

lemma cl_extendCluster [simp]:
  "cl_detections (extendCluster c k) = cl_detections c @ [k]"
  "cl_endTime (extendCluster c k) = timeInSeconds k"
  by (simp_all add: extendCluster_def Let_def)

lemma pushLast_simps [simp]:
  "pushLast (cs, None) = cs" "pushLast (cs, Some c) = cs @ [c]"
  by (simp_all add: pushLast_def)

lemma clusterLoop_concat:
  "concat (map cl_detections (pushLast (clusterLoop w ks st)))
     = concat (map cl_detections (pushLast st)) @ ks"
  by (induction w ks st rule: clusterLoop.induct) (auto split: option.splits)

lemma clusterLoop_nonempty:
  assumes "\<forall>c \<in> set (pushLast st). cl_detections c \<noteq> []"
  shows "\<forall>c \<in> set (pushLast (clusterLoop w ks st)). cl_detections c \<noteq> []"
  using assms
  by (induction w ks st rule: clusterLoop.induct) (auto split: option.splits)

lemma mergeClusters_nonempty:
  "c \<in> set (mergeClusters w ks) \<Longrightarrow> cl_detections c \<noteq> []"
  using clusterLoop_nonempty [of "([], None)" w ks] by (simp add: mergeClusters_def)

lemma mergeClusters_concat: "concat (map cl_detections (mergeClusters w ks)) = ks"
  by (simp add: mergeClusters_def clusterLoop_concat)

lemma mergeClusters_Nil_iff: "mergeClusters w ks = [] \<longleftrightarrow> ks = []"
proof
  assume "mergeClusters w ks = []"
  then show "ks = []" using mergeClusters_concat [of w ks] by simp
next
  assume "ks = []"
  then show "mergeClusters w ks = []" by (simp add: mergeClusters_def)
qed

lemma clusterLoop_apart:
  assumes "sorted_wrt (clusters_apart w) (cs @ [c])"
    and "cl_detections c \<noteq> []"
    and "\<forall>d \<in> set (cs @ [c]). \<forall>a \<in> set (cl_detections d). timeInSeconds a \<le> cl_endTime c"
    and "\<forall>k \<in> set ks. cl_endTime c \<le> timeInSeconds k"
    and "sorted (map timeInSeconds ks)"
  shows "sorted_wrt (clusters_apart w) (pushLast (clusterLoop w ks (cs, Some c)))"
  using assms
proof (induction ks arbitrary: cs c)
  case Nil
  then show ?case by simp
next
  case (Cons k ks)
  show ?case
  proof (cases "timeInSeconds k - cl_endTime c > w")
    case True
    have far: "clusters_apart w d (newCluster k)" if "d \<in> set (cs @ [c])" for d
      unfolding clusters_apart_def apart_def
    proof (intro ballI)
      fix a b assume a: "a \<in> set (cl_detections d)" and b: "b \<in> set (cl_detections (newCluster k))"
      from b have "b = k" by simp
      moreover have "timeInSeconds a \<le> cl_endTime c" using Cons.prems(3) that a by blast
      moreover have "cl_endTime c \<le> timeInSeconds k" using Cons.prems(4) by simp
      ultimately show "timeInSeconds a \<le> timeInSeconds b \<and> w < timeInSeconds b - timeInSeconds a"
        using True by auto
    qed
    have s: "sorted_wrt (clusters_apart w) ((cs @ [c]) @ [newCluster k])"
      unfolding sorted_wrt_append [of _ "cs @ [c]"] using Cons.prems(1) far by simp
    have le: "\<forall>d \<in> set ((cs @ [c]) @ [newCluster k]). \<forall>a \<in> set (cl_detections d).
        timeInSeconds a \<le> cl_endTime (newCluster k)"
      using Cons.prems(3,4) by fastforce
    have "sorted_wrt (clusters_apart w)
        (pushLast (clusterLoop w ks (cs @ [c], Some (newCluster k))))"
      using Cons.prems(5) by (intro Cons.IH s le) auto
    then show ?thesis using True by simp
  next
    case False
    obtain b0 where b0: "b0 \<in> set (cl_detections c)"
      using Cons.prems(2) by (cases "cl_detections c") auto
    have ck: "cl_endTime c \<le> timeInSeconds k" using Cons.prems(4) by simp
    have b0le: "timeInSeconds b0 \<le> cl_endTime c" using Cons.prems(3) b0 by simp
    have far: "clusters_apart w d (extendCluster c k)" if d: "d \<in> set cs" for d
      unfolding clusters_apart_def
    proof (intro ballI)
      fix a b assume a: "a \<in> set (cl_detections d)"
        and b: "b \<in> set (cl_detections (extendCluster c k))"
      have dc: "clusters_apart w d c"
        using Cons.prems(1) d by (simp add: sorted_wrt_append)
      show "apart w a b"
      proof (cases "b = k")
        case True
        have "apart w a b0" using dc a b0 by (simp add: clusters_apart_def)
        then show ?thesis using True ck b0le by (simp add: apart_def)
      next
        case False
        then have "b \<in> set (cl_detections c)" using b by simp
        then show ?thesis using dc a by (simp add: clusters_apart_def)
      qed
    qed
    have s: "sorted_wrt (clusters_apart w) (cs @ [extendCluster c k])"
      using Cons.prems(1) far by (simp add: sorted_wrt_append)
    have le: "\<forall>d \<in> set (cs @ [extendCluster c k]). \<forall>a \<in> set (cl_detections d).
        timeInSeconds a \<le> cl_endTime (extendCluster c k)"
      using Cons.prems(3) ck by fastforce
    have "sorted_wrt (clusters_apart w)
        (pushLast (clusterLoop w ks (cs, Some (extendCluster c k))))"
      using Cons.prems(5) by (intro Cons.IH s le) auto
    then show ?thesis using False by simp
  qed
qed

lemma mergeClusters_apart:
  assumes "sorted (map timeInSeconds ks)"
  shows "sorted_wrt (clusters_apart w) (mergeClusters w ks)"
proof (cases ks)
  case Nil
  then show ?thesis by (simp add: mergeClusters_def)
next
  case (Cons k rest)
  have "sorted_wrt (clusters_apart w) (pushLast (clusterLoop w rest ([], Some (newCluster k))))"
    using assms Cons by (intro clusterLoop_apart) auto
  then show ?thesis using Cons by (simp add: mergeClusters_def)
qed


lemma foldl_best_mem:
  "foldl (\<lambda>best current. if confidence current > confidence best then current else best) d rest
     \<in> set (d # rest)"
  by (induction rest arbitrary: d) (auto split: if_splits)

lemma reduceBest_mem:
  assumes "ds \<noteq> []"
  shows "\<exists>r \<in> set ds. reduceBest ds = Some r"
proof (cases ds)
  case Nil
  then show ?thesis using assms by simp
next
  case (Cons d rest)
  then show ?thesis
    using foldl_best_mem [of d rest] by (simp add: reduceBest_def)
qed

lemma enhance_fields [simp]:
  "timeInSeconds (enhance c r) = timeInSeconds r" "frameNumber (enhance c r) = frameNumber r"
  by (simp_all add: enhance_def Let_def)

lemma selectLoop_eq:
  assumes "\<forall>c \<in> set cs. cl_detections c \<noteq> []"
  shows "selectLoop m cs filtered =
    Inr (filtered @ map representativeOf (filter (\<lambda>c. m \<le> length (cl_detections c)) cs))"
  using assms
proof (induction cs arbitrary: filtered)
  case Nil
  then show ?case by simp
next
  case (Cons c cs)
  then obtain r where "reduceBest (cl_detections c) = Some r"
    using reduceBest_mem [of "cl_detections c"] by auto
  then show ?case using Cons by (simp add: representativeOf_def)
qed

lemma deduplicateKillScreens_eq:
  "deduplicateKillScreens ks w m =
     Inr (map representativeOf
       (filter (\<lambda>c. m \<le> length (cl_detections c))
          (mergeClusters w (sort_key timeInSeconds ks))))"
proof (cases "ks = []")
  case True
  then show ?thesis by (simp add: deduplicateKillScreens_def mergeClusters_def)
next
  case False
  then show ?thesis
    using selectLoop_eq [of "mergeClusters w (sort_key timeInSeconds ks)" m "[]"]
    by (simp add: deduplicateKillScreens_def Let_def mergeClusters_nonempty)
qed

lemma representativeOf_time:
  assumes "cl_detections c \<noteq> []"
  shows "\<exists>r \<in> set (cl_detections c). timeInSeconds (representativeOf c) = timeInSeconds r
     \<and> frameNumber (representativeOf c) = frameNumber r"
  using reduceBest_mem [OF assms] by (auto simp: representativeOf_def)

lemma output_apart:
  "sorted_wrt (apart w)
     (map representativeOf
       (filter (\<lambda>c. m \<le> length (cl_detections c))
          (mergeClusters w (sort_key timeInSeconds ks))))"
proof -
  let ?cs = "mergeClusters w (sort_key timeInSeconds ks)"
  have "sorted_wrt (clusters_apart w) ?cs"
    by (rule mergeClusters_apart) simp
  then have "sorted_wrt (\<lambda>c d. apart w (representativeOf c) (representativeOf d)) ?cs"
  proof (rule sorted_wrt_mono_rel [rotated])
    fix c d assume c: "c \<in> set ?cs" and d: "d \<in> set ?cs" and cd: "clusters_apart w c d"
    obtain a where a: "a \<in> set (cl_detections c)"
        "timeInSeconds (representativeOf c) = timeInSeconds a"
      using representativeOf_time [OF mergeClusters_nonempty [OF c]] by blast
    obtain b where b: "b \<in> set (cl_detections d)"
        "timeInSeconds (representativeOf d) = timeInSeconds b"
      using representativeOf_time [OF mergeClusters_nonempty [OF d]] by blast
    have "apart w a b" using cd a(1) b(1) by (simp add: clusters_apart_def)
    then show "apart w (representativeOf c) (representativeOf d)"
      using a(2) b(2) by (simp add: apart_def)
  qed
  then show ?thesis
    by (simp add: sorted_wrt_map sorted_wrt_filter)
qed

lemma apart_sorted:
  assumes "sorted_wrt (apart w) out"
  shows "sorted (map timeInSeconds out)"
proof -
  have "sorted_wrt (\<lambda>a b. timeInSeconds a \<le> timeInSeconds b) out"
    using assms by (rule sorted_wrt_mono_rel [rotated]) (simp add: apart_def)
  then show ?thesis by (simp add: sorted_map)
qed

lemma clusterLoop_singletons:
  assumes "sorted_wrt (apart w) (k # ks)"
    and "\<forall>c \<in> set cs. length (cl_detections c) = 1"
  shows "map cl_detections (pushLast (clusterLoop w ks (cs, Some (newCluster k))))
     = map cl_detections cs @ map (\<lambda>x. [x]) (k # ks)"
  using assms
proof (induction ks arbitrary: cs k)
  case Nil
  then show ?case by simp
next
  case (Cons k' ks)
  have gap: "timeInSeconds k' - cl_endTime (newCluster k) > w"
    using Cons.prems(1) by (simp add: apart_def)
  have "map cl_detections (pushLast (clusterLoop w ks (cs @ [newCluster k], Some (newCluster k'))))
     = map cl_detections (cs @ [newCluster k]) @ map (\<lambda>x. [x]) (k' # ks)"
    using Cons.prems by (intro Cons.IH) auto
  then show ?case using gap by simp
qed

lemma mergeClusters_singletons:
  assumes "sorted_wrt (apart w) out"
  shows "map cl_detections (mergeClusters w out) = map (\<lambda>x. [x]) out"
proof (cases out)
  case Nil
  then show ?thesis by (simp add: mergeClusters_def)
next
  case (Cons k ks)
  then show ?thesis
    using clusterLoop_singletons [of w k ks "[]"] assms by (simp add: mergeClusters_def)
qed

section \<open>EventClusterer: the claims\<close>

lemma foldl_plus_sum_list: "foldl (\<lambda>sum size. sum + size) (n::nat) xs = n + sum_list xs"
  by (induction xs arbitrary: n) auto

lemma foldl_max_Max: "foldl max (s::nat) xs = Max (set (s # xs))"
proof (induction xs arbitrary: s)
  case Nil
  then show ?case by simp
next
  case (Cons x xs)
  have "Max (insert (max s x) (set xs)) = Max (insert s (insert x (set xs)))"
    by (cases "xs = []") (auto simp: max.assoc)
  then show ?case using Cons by simp
qed

lemma bonus_of_one: "min (dbl (1/10)) (dbl (real (Suc 0) * dbl (2/100))) = dbl (2/100)"
  by (simp add: dbl_eval)

lemma representativeOf_singleton:
  assumes "cl_detections c = [r]"
  shows "representativeOf c = r\<lparr>confidence := min 1 (dbl (confidence r + dbl (2/100)))\<rparr>"
  using assms bonus_of_one
  by (simp add: representativeOf_def reduceBest_def enhance_def Let_def)

lemma rerun_output:
  assumes "map cl_detections cs = map (\<lambda>x. [x]) out"
  shows "map representativeOf (filter (\<lambda>c. 1 \<le> length (cl_detections c)) cs)
     = map (\<lambda>r. r\<lparr>confidence := min 1 (dbl (confidence r + dbl (2/100)))\<rparr>) out"
  using assms
proof (induction cs arbitrary: out)
  case Nil
  then show ?case by simp
next
  case (Cons c cs)
  then obtain r rest where out: "out = r # rest" by (cases out) auto
  then show ?case using Cons by (simp add: representativeOf_singleton)
qed

text \<open>
  The three samples of the example, as the doubles their literals are: one cluster, whose
  representative is the \<open>0.85\<close> sample; the sum that gives its confidence, evaluated.
\<close>

lemma three_sample_run:
  "deduplicateKillScreens
    [\<lparr>frameNumber = n0, timeInSeconds = 100,
       confidence = 7385903388887613 / 9007199254740992\<rparr>,
     \<lparr>frameNumber = n1, timeInSeconds = 7050948166601933 / 70368744177664,
       confidence = 7656119366529843 / 9007199254740992\<rparr>,
     \<lparr>frameNumber = n2, timeInSeconds = 3532510957718733 / 35184372088832,
       confidence = 889460926405673 / 1125899906842624\<rparr>] 2 2
   = Inr [\<lparr>frameNumber = n1, timeInSeconds = 7050948166601933 / 70368744177664,
           confidence = min 1 (dbl (7656119366529843 / 9007199254740992
                                    + min (dbl (1/10)) (dbl (3 * dbl (2/100)))))\<rparr>]"
  by (simp add: deduplicateKillScreens_def mergeClusters_def newCluster_def
      extendCluster_def reduceBest_def enhance_def)

lemma three_sample_sum:
  "min 1 (dbl (7656119366529843 / 9007199254740992 + min (dbl (1/10)) (dbl (3 * dbl (2/100)))))
     = 4098275660907151 / 4503599627370496"
  by (simp add: dbl_eval)

text \<open>
  C2, as the claim states it, fails. The samples \<open>(100.0, 0.82)\<close>, \<open>(100.2, 0.85)\<close>,
  \<open>(100.4, 0.79)\<close>, as the doubles these literals are, with a merge window of 2 seconds and a
  minimum cluster size of 2 give one record whose confidence is
  \<open>4098275660907151 / 2\<^sup>5\<^sup>2\<close>, printed \<open>0.9099999999999999\<close>: it is neither the real \<open>0.91\<close>
  nor the double \<open>0.91\<close>.
\<close>

theorem three_sample_counterexample:
  "deduplicateKillScreens
    [\<lparr>frameNumber = 500, timeInSeconds = 100, confidence = dbl (82/100)\<rparr>,
     \<lparr>frameNumber = 501, timeInSeconds = dbl (1002/10), confidence = dbl (85/100)\<rparr>,
     \<lparr>frameNumber = 502, timeInSeconds = dbl (1004/10), confidence = dbl (79/100)\<rparr>] 2 2
   = Inr [\<lparr>frameNumber = 501, timeInSeconds = dbl (1002/10),
           confidence = 4098275660907151 / 4503599627370496\<rparr>] \<and>
   (4098275660907151 / 4503599627370496 :: real) \<noteq> 91/100 \<and>
   (4098275660907151 / 4503599627370496 :: real) \<noteq> dbl (91/100)"
  using three_sample_run [of 500 501 502] three_sample_sum
  unfolding dbl_of_literals(3-8) by simp

text \<open>
  C2, amended. The three samples, whatever their frame numbers, give exactly one record: the
  time and the frame number of the \<open>0.85\<close> sample, and as confidence the value of
  \<open>min(1, 0.85 + min(0.1, 3 * 0.02))\<close> in double arithmetic. That value is
  \<open>0.9099999999999999\<close>, the double next below the double \<open>0.91\<close>; in exact arithmetic the
  expression is \<open>0.91\<close>, less than \<open>2\<^sup>-\<^sup>5\<^sup>3\<close> away.
\<close>

theorem three_sample_example:
  "deduplicateKillScreens
    [\<lparr>frameNumber = n0, timeInSeconds = 100, confidence = dbl (82/100)\<rparr>,
     \<lparr>frameNumber = n1, timeInSeconds = dbl (1002/10), confidence = dbl (85/100)\<rparr>,
     \<lparr>frameNumber = n2, timeInSeconds = dbl (1004/10), confidence = dbl (79/100)\<rparr>] 2 2
   = Inr [\<lparr>frameNumber = n1, timeInSeconds = dbl (1002/10),
           confidence = min 1 (dbl (dbl (85/100) + min (dbl (1/10)) (dbl (3 * dbl (2/100)))))\<rparr>] \<and>
   min 1 (dbl (dbl (85/100) + min (dbl (1/10)) (dbl (3 * dbl (2/100)))))
     = 4098275660907151 / 4503599627370496 \<and>
   (4098275660907151 / 4503599627370496 :: real) = dbl (91/100) - 1 / 2 ^ 53 \<and>
   min 1 (85/100 + min (1/10) (3 * (2/100))) = (91/100 :: real) \<and>
   \<bar>91/100 - 4098275660907151 / 4503599627370496 :: real\<bar> < 1 / 2 ^ 53"
proof -
  have run: "deduplicateKillScreens
    [\<lparr>frameNumber = n0, timeInSeconds = 100, confidence = dbl (82/100)\<rparr>,
     \<lparr>frameNumber = n1, timeInSeconds = dbl (1002/10), confidence = dbl (85/100)\<rparr>,
     \<lparr>frameNumber = n2, timeInSeconds = dbl (1004/10), confidence = dbl (79/100)\<rparr>] 2 2
   = Inr [\<lparr>frameNumber = n1, timeInSeconds = dbl (1002/10),
           confidence = min 1 (dbl (dbl (85/100) + min (dbl (1/10)) (dbl (3 * dbl (2/100)))))\<rparr>]"
    unfolding dbl_of_literals(3-8) by (rule three_sample_run)
  have sum: "min 1 (dbl (dbl (85/100) + min (dbl (1/10)) (dbl (3 * dbl (2/100)))))
     = 4098275660907151 / 4503599627370496"
    unfolding dbl_of_literals(5) by (rule three_sample_sum)
  have below: "(4098275660907151 / 4503599627370496 :: real) = dbl (91/100) - 1 / 2 ^ 53"
    unfolding dbl_of_literals by simp
  have exact: "min 1 (85/100 + min (1/10) (3 * (2/100))) = (91/100 :: real)"
    by simp
  have near: "\<bar>91/100 - 4098275660907151 / 4503599627370496 :: real\<bar> < 1 / 2 ^ 53"
    by simp
  from run sum below exact near show ?thesis by blast
qed

text \<open>
  C3. For every sample list, the clusters that \<open>analyzeDetectionClusters\<close> reports are the
  partition that the merge loop of \<open>deduplicateKillScreens\<close> builds with the window 2 (from
  which the clusterer called with the window 2 goes on to select its records, and whose
  clusters, concatenated, are the time-sorted samples); the count, the mean size and the
  maximum size are those of that partition, and all three are 0 for the empty list. The
  function takes no window: no configured value can reach it.
\<close>

theorem analyze_fixed_two_second_partition:
  "analyzeDetectionClusters killScreens =
     (let partition = mergeClusters 2 (sort_key timeInSeconds killScreens)
      in if killScreens = []
         then Inr \<lparr>totalClusters = 0, averageClusterSize = 0, maxClusterSize = 0, ca_clusters = []\<rparr>
         else Inr \<lparr>totalClusters = length partition,
                   averageClusterSize =
                     real (sum_list (map clusterSize partition)) / real (length partition),
                   maxClusterSize = Max (set (map clusterSize partition)),
                   ca_clusters = partition\<rparr>) \<and>
   deduplicateKillScreens killScreens 2 m =
     selectLoop m (mergeClusters 2 (sort_key timeInSeconds killScreens)) [] \<and>
   concat (map cl_detections (mergeClusters 2 (sort_key timeInSeconds killScreens)))
     = sort_key timeInSeconds killScreens"
proof -
  let ?P = "mergeClusters 2 (sort_key timeInSeconds killScreens)"
  have loop: "pushLast (analyzeLoop (sort_key timeInSeconds killScreens) ([], None)) = ?P"
    by (simp add: analyzeLoop_eq mergeClusters_def)
  have dedup: "deduplicateKillScreens killScreens 2 m = selectLoop m ?P []"
    by (simp add: deduplicateKillScreens_def mergeClusters_def Let_def)
  have analyze: "analyzeDetectionClusters killScreens =
      Inr \<lparr>totalClusters = length ?P,
           averageClusterSize = real (sum_list (map clusterSize ?P)) / real (length ?P),
           maxClusterSize = Max (set (map clusterSize ?P)),
           ca_clusters = ?P\<rparr>" if ne: "killScreens \<noteq> []"
  proof -
    have "sort_key timeInSeconds killScreens \<noteq> []"
      using ne length_sort [of timeInSeconds killScreens] by (metis length_0_conv)
    then have "?P \<noteq> []" by (simp add: mergeClusters_Nil_iff)
    then obtain c cs where P: "?P = c # cs" by (cases ?P) auto
    have sizes: "map (\<lambda>c. length (cl_detections c)) ?P = map clusterSize ?P"
      by (simp add: clusterSize_def)
    show ?thesis
      unfolding analyzeDetectionClusters_def loop Let_def sizes
      using ne P by (simp add: foldl_plus_sum_list foldl_max_Max)
  qed
  have empty: "analyzeDetectionClusters [] =
      Inr \<lparr>totalClusters = 0, averageClusterSize = 0, maxClusterSize = 0, ca_clusters = []\<rparr>"
    by (simp add: analyzeDetectionClusters_def)
  show ?thesis
    using analyze dedup empty by (simp add: Let_def mergeClusters_concat)
qed

text \<open>
  Two samples 3 seconds apart: two clusters for the analysis, one cluster for the merge loop
  at the window 5 that \<open>detect-only.ts\<close> passes to the clusterer.
\<close>

lemma analyze_ignores_other_windows:
  "analyzeDetectionClusters
     [\<lparr>frameNumber = 0, timeInSeconds = 0, confidence = 9/10\<rparr>,
      \<lparr>frameNumber = 15, timeInSeconds = 3, confidence = 8/10\<rparr>]
   = Inr \<lparr>totalClusters = 2, averageClusterSize = 1, maxClusterSize = 1,
          ca_clusters =
            [newCluster \<lparr>frameNumber = 0, timeInSeconds = 0, confidence = 9/10\<rparr>,
             newCluster \<lparr>frameNumber = 15, timeInSeconds = 3, confidence = 8/10\<rparr>]\<rparr> \<and>
   map clusterSize (mergeClusters 5 (sort_key timeInSeconds
     [\<lparr>frameNumber = 0, timeInSeconds = 0, confidence = 9/10\<rparr>,
      \<lparr>frameNumber = 15, timeInSeconds = 3, confidence = 8/10\<rparr>])) = [2]"
  by (simp add: analyzeDetectionClusters_def mergeClusters_def clusterSize_def Let_def)

text \<open>
  C8. Let \<open>out\<close> be what the clusterer returns for any samples, window \<open>w\<close> and minimum
  size \<open>m\<close>. When the clusterer runs again on \<open>out\<close> with the same window, every cluster of
  its merge loop holds one record: no two records of \<open>out\<close> share a cluster, in particular
  no two whose times differ by more than \<open>w\<close>, and with the minimum size 1 the second run
  returns the records of \<open>out\<close> one for one, each with the bonus of a cluster of size 1.
  (The clusterer returns for every input: \<open>deduplicateKillScreens_eq\<close>.)
\<close>

theorem rerun_never_merges:
  assumes "deduplicateKillScreens killScreens w m = Inr out"
    and "c \<in> set (mergeClusters w (sort_key timeInSeconds out))"
  shows "length (cl_detections c) = 1 \<and>
    (\<forall>i j. i < j \<and> j < length (cl_detections c) \<longrightarrow>
       \<not> w < \<bar>timeInSeconds (cl_detections c ! i) - timeInSeconds (cl_detections c ! j)\<bar>) \<and>
    map cl_detections (mergeClusters w (sort_key timeInSeconds out)) = map (\<lambda>x. [x]) out \<and>
    deduplicateKillScreens out w 1 =
      Inr (map (\<lambda>r. r\<lparr>confidence := min 1 (dbl (confidence r + dbl (2/100)))\<rparr>) out)"
proof -
  have out: "sorted_wrt (apart w) out"
    using assms(1) output_apart [of w m killScreens]
    by (simp add: deduplicateKillScreens_eq)
  have id: "sort_key timeInSeconds out = out"
    by (rule sort_key_id_if_sorted) (rule apart_sorted [OF out])
  have all: "map cl_detections (mergeClusters w out) = map (\<lambda>x. [x]) out"
    by (rule mergeClusters_singletons [OF out])
  have "cl_detections c \<in> set (map cl_detections (mergeClusters w out))"
    using assms(2) id by simp
  then have one: "length (cl_detections c) = 1"
    unfolding all by auto
  have again: "deduplicateKillScreens out w 1 =
      Inr (map (\<lambda>r. r\<lparr>confidence := min 1 (dbl (confidence r + dbl (2/100)))\<rparr>) out)"
    using rerun_output [OF all] by (simp add: deduplicateKillScreens_eq id)
  show ?thesis using one all id again by simp
qed

theorem rerun_never_merges_witness:
  "deduplicateKillScreens
     [\<lparr>frameNumber = 0, timeInSeconds = 0, confidence = 7/8\<rparr>,
      \<lparr>frameNumber = 5, timeInSeconds = 1, confidence = 15/16\<rparr>,
      \<lparr>frameNumber = 50, timeInSeconds = 10, confidence = 3/4\<rparr>,
      \<lparr>frameNumber = 52, timeInSeconds = 21/2, confidence = 5/8\<rparr>] 2 2
     = Inr [\<lparr>frameNumber = 5, timeInSeconds = 1,
             confidence = 1100567158938665 / 1125899906842624\<rparr>,
            \<lparr>frameNumber = 50, timeInSeconds = 10,
             confidence = 889460926405673 / 1125899906842624\<rparr>] \<and>
   newCluster \<lparr>frameNumber = 5, timeInSeconds = 1,
               confidence = 1100567158938665 / 1125899906842624\<rparr>
     \<in> set (mergeClusters 2 (sort_key timeInSeconds
          [\<lparr>frameNumber = 5, timeInSeconds = 1,
             confidence = 1100567158938665 / 1125899906842624\<rparr>,
           \<lparr>frameNumber = 50, timeInSeconds = 10,
             confidence = 889460926405673 / 1125899906842624\<rparr>])) \<and>
   length (cl_detections
      (newCluster \<lparr>frameNumber = 5, timeInSeconds = 1,
                   confidence = 1100567158938665 / 1125899906842624\<rparr>)) = 1 \<and>
   deduplicateKillScreens
     [\<lparr>frameNumber = 5, timeInSeconds = 1,
        confidence = 1100567158938665 / 1125899906842624\<rparr>,
      \<lparr>frameNumber = 50, timeInSeconds = 10,
        confidence = 889460926405673 / 1125899906842624\<rparr>] 2 1
     = Inr [\<lparr>frameNumber = 5, timeInSeconds = 1,
             confidence = 2246170314151035 / 2251799813685248\<rparr>,
            \<lparr>frameNumber = 50, timeInSeconds = 10,
             confidence = 1823957849085051 / 2251799813685248\<rparr>]"
proof -
  let ?out = "[\<lparr>frameNumber = 5, timeInSeconds = 1,
                 confidence = 1100567158938665 / 1125899906842624\<rparr>,
               \<lparr>frameNumber = 50, timeInSeconds = 10,
                 confidence = 889460926405673 / 1125899906842624 :: real\<rparr>]"
  have e1: "min 1 (dbl (15/16 + min (dbl (1/10)) (dbl (2 * dbl (2/100)))))
      = 1100567158938665 / 1125899906842624"
    and e2: "min 1 (dbl (3/4 + min (dbl (1/10)) (dbl (2 * dbl (2/100)))))
      = 889460926405673 / 1125899906842624"
    and e3: "dbl (15/16 + min (dbl (1/10)) (dbl (2 * dbl (2/100))))
      = 1100567158938665 / 1125899906842624"
    and e4: "dbl (3/4 + min (dbl (1/10)) (dbl (2 * dbl (2/100))))
      = 889460926405673 / 1125899906842624"
    by (simp_all add: dbl_eval)
  have first: "deduplicateKillScreens
     [\<lparr>frameNumber = 0, timeInSeconds = 0, confidence = 7/8\<rparr>,
      \<lparr>frameNumber = 5, timeInSeconds = 1, confidence = 15/16\<rparr>,
      \<lparr>frameNumber = 50, timeInSeconds = 10, confidence = 3/4\<rparr>,
      \<lparr>frameNumber = 52, timeInSeconds = 21/2, confidence = 5/8\<rparr>] 2 2 = Inr ?out"
    using e1 e2 e3 e4
    by (simp add: deduplicateKillScreens_def mergeClusters_def newCluster_def
        extendCluster_def reduceBest_def enhance_def)
  have member: "newCluster \<lparr>frameNumber = 5, timeInSeconds = 1,
        confidence = 1100567158938665 / 1125899906842624\<rparr>
      \<in> set (mergeClusters 2 (sort_key timeInSeconds ?out))"
    by (simp add: mergeClusters_def)
  have a1: "min 1 (dbl (1100567158938665 / 1125899906842624 + dbl (2/100)))
      = 2246170314151035 / 2251799813685248"
    and a2: "min 1 (dbl (889460926405673 / 1125899906842624 + dbl (2/100)))
      = 1823957849085051 / 2251799813685248"
    and a3: "dbl (1100567158938665 / 1125899906842624 + dbl (2/100))
      = 2246170314151035 / 2251799813685248"
    and a4: "dbl (889460926405673 / 1125899906842624 + dbl (2/100))
      = 1823957849085051 / 2251799813685248"
    by (simp_all add: dbl_eval)
  have again: "map (\<lambda>r. r\<lparr>confidence := min 1 (dbl (confidence r + dbl (2/100)))\<rparr>) ?out
      = [\<lparr>frameNumber = 5, timeInSeconds = 1,
           confidence = 2246170314151035 / 2251799813685248\<rparr>,
         \<lparr>frameNumber = 50, timeInSeconds = 10,
           confidence = 1823957849085051 / 2251799813685248\<rparr>]"
    using a1 a2 a3 a4 by simp
  show ?thesis
    using rerun_never_merges [OF first member] first member again by simp
qed

section \<open>FrameScorer: bounds of the scan\<close>

lemma scanPixel_total: "totalRedPixels (scanPixel img y x st) \<le> totalRedPixels st + 1"
  by (simp add: scanPixel_def Let_def split: option.splits)

lemma fold_scanPixel_total:
  "totalRedPixels (fold (scanPixel img y) xs st) \<le> totalRedPixels st + length xs"
proof (induction xs arbitrary: st)
  case Nil
  then show ?case by simp
next
  case (Cons x xs)
  have "totalRedPixels (fold (scanPixel img y) xs (scanPixel img y x st))
      \<le> totalRedPixels (scanPixel img y x st) + length xs"
    by (rule Cons.IH)
  then show ?case using scanPixel_total [of img y x st] by simp
qed

lemma scanRow_total:
  "totalRedPixels (scanRow img startX endX y st) \<le> totalRedPixels st + (endX - startX)"
  using fold_scanPixel_total [of img y "[startX..<endX]" st] by (simp add: scanRow_def)

lemma fold_scanRow_total:
  "totalRedPixels (fold (scanRow img startX endX) ys st)
     \<le> totalRedPixels st + length ys * (endX - startX)"
proof (induction ys arbitrary: st)
  case Nil
  then show ?case by simp
next
  case (Cons y ys)
  have "totalRedPixels (fold (scanRow img startX endX) ys (scanRow img startX endX y st))
      \<le> totalRedPixels (scanRow img startX endX y st) + length ys * (endX - startX)"
    by (rule Cons.IH)
  then show ?case using scanRow_total [of img startX endX y st] by simp
qed

lemma scanCell_total:
  "totalRedPixels (scanCell img startX endX startY endY st)
     \<le> totalRedPixels st + (endY - startY) * (endX - startX)"
  using fold_scanRow_total [of img startX endX "[startY..<endY]" st] by (simp add: scanCell_def)

lemma analyzeCell_total:
  "fst (analyzeCell img gridY gridX gs)
     \<le> fst gs + (height img div gridSize) * (width img div gridSize)"
proof -
  obtain t ris cs where gs: "gs = (t, ris, cs)" by (cases gs)
  let ?cw = "width img div gridSize" and ?ch = "height img div gridSize"
  let ?st = "\<lparr>cellRedPixels = 0, cellTotalPixels = 0, cellRedIntensity = 0,
              totalRedPixels = t, redIntensities = ris\<rparr>"
  let ?sx = "gridX * ?cw" and ?sy = "gridY * ?ch"
  let ?ex = "min (?sx + ?cw) (width img)" and ?ey = "min (?sy + ?ch) (height img)"
  have "totalRedPixels (scanCell img ?sx ?ex ?sy ?ey ?st)
      \<le> t + (?ey - ?sy) * (?ex - ?sx)"
    using scanCell_total [of img ?sx ?ex ?sy ?ey ?st] by simp
  also have "(?ey - ?sy) * (?ex - ?sx) \<le> ?ch * ?cw"
    by (intro mult_le_mono) auto
  finally show ?thesis
    by (simp add: gs analyzeCell_def Let_def)
qed

lemma analyzeCell_cells:
  "length (snd (snd (analyzeCell img gridY gridX gs))) = length (snd (snd gs)) + 1"
  by (cases gs) (simp add: analyzeCell_def Let_def)

lemma fold_analyzeCell:
  "fst (fold (analyzeCell img gridY) xs gs)
     \<le> fst gs + length xs * ((height img div gridSize) * (width img div gridSize)) \<and>
   length (snd (snd (fold (analyzeCell img gridY) xs gs))) = length (snd (snd gs)) + length xs"
proof (induction xs arbitrary: gs)
  case Nil
  then show ?case by simp
next
  case (Cons x xs)
  show ?case
    using Cons.IH [of "analyzeCell img gridY x gs"]
      analyzeCell_total [of img gridY x gs] analyzeCell_cells [of img gridY x gs]
    by simp
qed

lemma fold_rows_analyzeCell:
  "fst (fold (\<lambda>gridY gs. fold (analyzeCell img gridY) xs gs) ys gs)
     \<le> fst gs + length ys * (length xs * ((height img div gridSize) * (width img div gridSize))) \<and>
   length (snd (snd (fold (\<lambda>gridY gs. fold (analyzeCell img gridY) xs gs) ys gs)))
     = length (snd (snd gs)) + length ys * length xs"
proof (induction ys arbitrary: gs)
  case Nil
  then show ?case by simp
next
  case (Cons y ys)
  show ?case
    using Cons.IH [of "fold (analyzeCell img y) xs gs"] fold_analyzeCell [of img y xs gs]
    by simp
qed

lemma scanGrid_bounds:
  "fst (scanGrid img) \<le> 9 * ((height img div 3) * (width img div 3)) \<and>
   length (snd (snd (scanGrid img))) = 9"
  using fold_rows_analyzeCell [of img "[0..<gridSize]" "[0..<gridSize]" "(0, [], [])"]
  by (simp add: scanGrid_def gridSize_def)

lemma grid_inside: "9 * (((h::nat) div 3) * (w div 3)) \<le> w * h"
proof -
  have "3 * (h div 3) \<le> h" "3 * (w div 3) \<le> w" by simp_all
  then have "(3 * (h div 3)) * (3 * (w div 3)) \<le> h * w" by (rule mult_le_mono)
  then show ?thesis by (simp add: mult.commute mult.left_commute)
qed

lemma scanGrid_total_le: "fst (scanGrid img) \<le> width img * height img"
  using scanGrid_bounds [of img] grid_inside [of "height img" "width img"] by linarith


lemma scoreFrame_fields:
  assumes "width img * height img \<noteq> 0"
    and "scanGrid img = (totalRed, intensities, redCells)"
  shows "\<exists>r. scoreFrame img = Inr r \<and>
    globalRedCoverage r = real totalRed / real (width img * height img) \<and>
    globalRedCoverageScore r = min 1 (globalRedCoverage r * 2) \<and>
    redUniformityScore r
      = real (length (filter (\<lambda>cell. redRatio cell > 3/10) redCells)) / 9 \<and>
    redIntensityScore r = min 1 (avgRedIntensity r / 100) \<and>
    avgRedIntensity r =
      (if intensities = [] then 0
       else real (foldl (\<lambda>sum intensity. sum + intensity) 0 intensities)
              / real (length intensities)) \<and>
    nonRedArea r = 1 - globalRedCoverage r \<and>
    nonRedAreaScore r = max 0 (1 - nonRedArea r * 3) \<and>
    killScore r = globalRedCoverageScore r * (4/10) + redUniformityScore r * (3/10)
      + redIntensityScore r * (2/10) + nonRedAreaScore r * (1/10) \<and>
    isKillScreen r = (killScore r > 8/10)"
  using assms by (simp add: scoreFrame_def Let_def gridSize_def)

text \<open>
  C1. For every decoded frame with \<open>width \<ge> 1\<close> and \<open>height \<ge> 1\<close>, whatever its bytes, its
  channel count and the length of its buffer, the scorer returns a result whose \<open>killScore\<close>
  is the weighted sum \<open>0.4, 0.3, 0.2, 0.1\<close> of the four sub-scores and lies in \<open>[0, 1]\<close>, as
  does each sub-score.
\<close>

theorem killScore_in_unit_interval:
  assumes "1 \<le> width img" and "1 \<le> height img"
  shows "\<exists>r. detectGlobalRed (Some img) = Inr r \<and> 0 \<le> killScore r \<and> killScore r \<le> 1 \<and>
    killScore r = globalRedCoverageScore r * (4/10) + redUniformityScore r * (3/10)
      + redIntensityScore r * (2/10) + nonRedAreaScore r * (1/10) \<and>
    0 \<le> globalRedCoverageScore r \<and> globalRedCoverageScore r \<le> 1 \<and>
    0 \<le> redUniformityScore r \<and> redUniformityScore r \<le> 1 \<and>
    0 \<le> redIntensityScore r \<and> redIntensityScore r \<le> 1 \<and>
    0 \<le> nonRedAreaScore r \<and> nonRedAreaScore r \<le> 1"
proof -
  obtain totalRed intensities redCells
    where grid: "scanGrid img = (totalRed, intensities, redCells)"
    by (cases "scanGrid img")
  have pixels: "0 < width img * height img" using assms by simp
  obtain r where r: "scoreFrame img = Inr r"
    and cov: "globalRedCoverage r = real totalRed / real (width img * height img)"
    and s1: "globalRedCoverageScore r = min 1 (globalRedCoverage r * 2)"
    and s2: "redUniformityScore r
      = real (length (filter (\<lambda>cell. redRatio cell > 3/10) redCells)) / 9"
    and s3: "redIntensityScore r = min 1 (avgRedIntensity r / 100)"
    and avg: "avgRedIntensity r =
      (if intensities = [] then 0
       else real (foldl (\<lambda>sum intensity. sum + intensity) 0 intensities)
              / real (length intensities))"
    and non: "nonRedArea r = 1 - globalRedCoverage r"
    and s4: "nonRedAreaScore r = max 0 (1 - nonRedArea r * 3)"
    and score: "killScore r = globalRedCoverageScore r * (4/10) + redUniformityScore r * (3/10)
      + redIntensityScore r * (2/10) + nonRedAreaScore r * (1/10)"
    using scoreFrame_fields [OF _ grid] pixels by auto
  have "totalRed \<le> width img * height img"
    using scanGrid_total_le [of img] grid by simp
  then have "real totalRed \<le> real (width img * height img)"
    by (simp only: of_nat_le_iff)
  then have cov01: "0 \<le> globalRedCoverage r" "globalRedCoverage r \<le> 1"
    using pixels by (simp_all add: cov)
  have b1: "0 \<le> globalRedCoverageScore r" "globalRedCoverageScore r \<le> 1"
    using cov01 by (simp_all add: s1)
  have "length (filter (\<lambda>cell. redRatio cell > 3/10) redCells) \<le> length redCells"
    by (rule length_filter_le)
  also have "length redCells = 9"
    using scanGrid_bounds [of img] grid by simp
  finally have b2: "0 \<le> redUniformityScore r" "redUniformityScore r \<le> 1"
    by (simp_all add: s2)
  have "0 \<le> avgRedIntensity r" by (simp add: avg)
  then have b3: "0 \<le> redIntensityScore r" "redIntensityScore r \<le> 1"
    by (simp_all add: s3)
  have b4: "0 \<le> nonRedAreaScore r" "nonRedAreaScore r \<le> 1"
    using cov01 by (simp_all add: s4 non)
  have "0 \<le> killScore r" "killScore r \<le> 1"
    using b1 b2 b3 b4 unfolding score by linarith+
  then show ?thesis
    using r score b1 b2 b3 b4 by (auto simp: detectGlobalRed_def)
qed

lemmas scorer_defs = detectGlobalRed_def scoreFrame_def scanGrid_def analyzeCell_def
  scanCell_def scanRow_def scanPixel_def readByte_def gridSize_def Let_def upt_conv_Cons

lemma fiveOfNineRed_result:
  "detectGlobalRed (Some fiveOfNineRed) =
     Inr \<lparr>isKillScreen = False, killScore = 23/30, globalRedCoverage = 5/9,
          globalRedCoverageScore = 1, redUniformity = 5/9, redUniformityScore = 5/9,
          avgRedIntensity = 255, redIntensityScore = 1, nonRedArea = 4/9,
          nonRedAreaScore = 0\<rparr>"
  by (simp add: fiveOfNineRed_def scorer_defs)

theorem killScore_in_unit_interval_witness:
  "1 \<le> width fiveOfNineRed \<and> 1 \<le> height fiveOfNineRed \<and>
   (\<exists>r. detectGlobalRed (Some fiveOfNineRed) = Inr r \<and> killScore r = 23/30 \<and>
      0 \<le> killScore r \<and> killScore r \<le> 1)"
proof -
  have w: "1 \<le> width fiveOfNineRed" and h: "1 \<le> height fiveOfNineRed"
    by (simp_all add: fiveOfNineRed_def)
  show ?thesis
    using killScore_in_unit_interval [OF w h] w h fiveOfNineRed_result by auto
qed

section \<open>FrameScorer: the fourth sub-score\<close>

text \<open>
  For every decoded frame with \<open>width \<ge> 1\<close> and \<open>height \<ge> 1\<close> the fourth sub-score is
  computed from the raw ratio of the scan's counter to \<open>width * height\<close>; the saturated
  sub-score \<open>min 1 (2 * coverage)\<close> does not enter it.
\<close>

lemma nonRedAreaScore_of_scan:
  assumes "1 \<le> width img" and "1 \<le> height img"
  shows "\<exists>r. detectGlobalRed (Some img) = Inr r \<and>
    globalRedCoverage r = real (fst (scanGrid img)) / real (width img * height img) \<and>
    globalRedCoverageScore r = min 1 (2 * globalRedCoverage r) \<and>
    nonRedAreaScore r = max 0 (1 - 3 * (1 - globalRedCoverage r))"
proof -
  obtain totalRed intensities redCells
    where grid: "scanGrid img = (totalRed, intensities, redCells)"
    by (cases "scanGrid img")
  have "width img * height img \<noteq> 0" using assms by simp
  from scoreFrame_fields [OF this grid] show ?thesis
    by (auto simp: detectGlobalRed_def grid mult.commute)
qed

text \<open>
  C4, at a well-formed 6x6 frame whose whole area the grid scans and of which 27 of the 36
  pixels are dominant. The coverage is \<open>0.75\<close>, the saturated coverage sub-score is 1, and the
  claim's formula over it gives the fourth sub-score 1. The non-red share is \<open>0.25\<close>, below
  the 33% up to which the source's comment on the fourth sub-score promises full marks. The
  scorer gives \<open>1 - 3 * 0.25 = 0.25\<close>.
\<close>

theorem threeQuartersRed_fourth_subscore:
  "length (data threeQuartersRed)
     = width threeQuartersRed * height threeQuartersRed * channels threeQuartersRed \<and>
   gridSize * (width threeQuartersRed div gridSize) = width threeQuartersRed \<and>
   gridSize * (height threeQuartersRed div gridSize) = height threeQuartersRed \<and>
   fst (scanGrid threeQuartersRed) = 27 \<and>
   (\<exists>r. detectGlobalRed (Some threeQuartersRed) = Inr r \<and>
      isKillScreen r \<and>
      globalRedCoverage r = 3/4 \<and> globalRedCoverageScore r = 1 \<and>
      redUniformity r = 1 \<and> redIntensityScore r = 1 \<and>
      nonRedArea r = 1/4 \<and> nonRedArea r \<le> 33/100 \<and>
      nonRedAreaScore r = 1/4 \<and>
      max 0 (1 - 3 * (1 - globalRedCoverageScore r)) = 1)"
  by (simp add: threeQuartersRed_def scorer_defs)

section \<open>FrameScorer: a frame of pure red\<close>

text \<open>
  On a frame of pure red the scan counts \<open>9 * (height div 3) * (width div 3)\<close> pixels, the
  pixels of the nine cells, and the score is 1 exactly when the cells cover the frame.
\<close>

lemma countRed_0 [simp]: "countRed 0 st = st"
  by (simp add: countRed_def)

lemma countRed_add: "countRed m (countRed n st) = countRed (n + m) st"
  by (simp add: countRed_def replicate_add add_mult_distrib)

lemma pixel_inside:
  assumes "x < (w::nat)" and "y < h"
  shows "y * w + x < w * h"
proof -
  have "y * w + x < y * w + w" using assms(1) by simp
  also have "\<dots> = (y + 1) * w" by simp
  also have "\<dots> \<le> h * w" using assms(2) by (intro mult_le_mono1) simp
  finally show ?thesis by (simp add: mult.commute)
qed

lemma scanPixel_pureRed:
  assumes "pureRed img" and "x < width img" and "y < height img"
  shows "scanPixel img y x st = countRed 1 st"
proof -
  let ?p = "y * width img + x" and ?c = "channels img"
  have p: "?p < width img * height img" by (rule pixel_inside [OF assms(2,3)])
  have c: "3 \<le> ?c" using assms(1) by (simp add: pureRed_def)
  have "(?p + 1) * ?c \<le> width img * height img * ?c"
    using p by (intro mult_le_mono1) simp
  then have inside: "?p * ?c + 2 < length (data img)"
    using c assms(1) by (simp add: pureRed_def)
  have bytes: "readByte (data img) (?p * ?c) = Some 255"
      "readByte (data img) (?p * ?c + 1) = Some 0"
      "readByte (data img) (?p * ?c + 2) = Some 0"
    using assms(1) p inside by (simp_all add: pureRed_def readByte_def)
  show ?thesis
    unfolding scanPixel_def Let_def bytes by (simp add: countRed_def)
qed

lemma fold_scanPixel_pureRed:
  assumes "pureRed img" and "y < height img" and "\<forall>x \<in> set xs. x < width img"
  shows "fold (scanPixel img y) xs st = countRed (length xs) st"
  using assms(3)
proof (induction xs arbitrary: st)
  case Nil
  then show ?case by simp
next
  case (Cons x xs)
  then show ?case
    using scanPixel_pureRed [OF assms(1) _ assms(2), of x st]
    by (simp add: countRed_add)
qed

lemma scanRow_pureRed:
  assumes "pureRed img" and "y < height img" and "endX \<le> width img"
  shows "scanRow img startX endX y st = countRed (endX - startX) st"
  using fold_scanPixel_pureRed [OF assms(1,2), of "[startX..<endX]" st] assms(3)
  by (simp add: scanRow_def)

lemma fold_scanRow_pureRed:
  assumes "pureRed img" and "endX \<le> width img" and "\<forall>y \<in> set ys. y < height img"
  shows "fold (scanRow img startX endX) ys st = countRed (length ys * (endX - startX)) st"
  using assms(3)
proof (induction ys arbitrary: st)
  case Nil
  then show ?case by simp
next
  case (Cons y ys)
  then show ?case
    using scanRow_pureRed [OF assms(1) _ assms(2), of y startX st]
    by (simp add: countRed_add add.commute)
qed

lemma scanCell_pureRed:
  assumes "pureRed img" and "endX \<le> width img" and "endY \<le> height img"
  shows "scanCell img startX endX startY endY st
           = countRed ((endY - startY) * (endX - startX)) st"
  using fold_scanRow_pureRed [OF assms(1,2), of "[startY..<endY]" startX st] assms(3)
  by (simp add: scanCell_def)

lemma analyzeCell_pureRed:
  assumes "pureRed img" and "gridX < 3" and "gridY < 3"
  shows "analyzeCell img gridY gridX (t, ris, cells) =
    (t + (height img div 3) * (width img div 3),
     ris @ replicate ((height img div 3) * (width img div 3)) 255,
     cells @ [redCell ((height img div 3) * (width img div 3)) gridY gridX])"
proof -
  let ?cw = "width img div 3" and ?ch = "height img div 3"
  have "gridX * ?cw + ?cw = (gridX + 1) * ?cw" by simp
  also have "\<dots> \<le> 3 * ?cw" using assms(2) by (intro mult_le_mono1) simp
  also have "\<dots> \<le> width img" by simp
  finally have x: "gridX * ?cw + ?cw \<le> width img" .
  have "gridY * ?ch + ?ch = (gridY + 1) * ?ch" by simp
  also have "\<dots> \<le> 3 * ?ch" using assms(3) by (intro mult_le_mono1) simp
  also have "\<dots> \<le> height img" by simp
  finally have y: "gridY * ?ch + ?ch \<le> height img" .
  have ex: "min (gridX * ?cw + ?cw) (width img) = gridX * ?cw + ?cw"
    and ey: "min (gridY * ?ch + ?ch) (height img) = gridY * ?ch + ?ch"
    using x y by simp_all
  have cell: "scanCell img (gridX * ?cw) (gridX * ?cw + ?cw) (gridY * ?ch) (gridY * ?ch + ?ch) st
      = countRed (?ch * ?cw) st" for st
    using scanCell_pureRed [OF assms(1) x y, of "gridX * ?cw" "gridY * ?ch" st] by simp
  show ?thesis
    unfolding analyzeCell_def gridSize_def Let_def ex ey cell
    by (simp add: countRed_def redCell_def)
qed

lemma fold_analyzeCell_pureRed:
  assumes "pureRed img" and "gridY < 3" and "\<forall>x \<in> set xs. x < 3"
  shows "fold (analyzeCell img gridY) xs (t, ris, cells) =
    (t + length xs * ((height img div 3) * (width img div 3)),
     ris @ replicate (length xs * ((height img div 3) * (width img div 3))) 255,
     cells @ map (redCell ((height img div 3) * (width img div 3)) gridY) xs)"
  using assms(3)
proof (induction xs arbitrary: t ris cells)
  case Nil
  then show ?case by simp
next
  case (Cons x xs)
  then show ?case
    using analyzeCell_pureRed [OF assms(1) _ assms(2), of x t ris cells]
    by (simp add: replicate_add add.commute)
qed

lemma fold_rows_pureRed:
  assumes "pureRed img" and "\<forall>y \<in> set ys. y < 3"
  shows "fold (\<lambda>gridY gs. fold (analyzeCell img gridY) [0..<3] gs) ys (t, ris, cells) =
    (t + length ys * (3 * ((height img div 3) * (width img div 3))),
     ris @ replicate (length ys * (3 * ((height img div 3) * (width img div 3)))) 255,
     cells @ concat (map (\<lambda>gridY.
        map (redCell ((height img div 3) * (width img div 3)) gridY) [0..<3]) ys))"
  using assms(2)
proof (induction ys arbitrary: t ris cells)
  case Nil
  then show ?case by simp
next
  case (Cons y ys)
  have row: "fold (analyzeCell img y) [0..<3] (t, ris, cells) =
    (t + 3 * ((height img div 3) * (width img div 3)),
     ris @ replicate (3 * ((height img div 3) * (width img div 3))) 255,
     cells @ map (redCell ((height img div 3) * (width img div 3)) y) [0..<3])"
    using fold_analyzeCell_pureRed [OF assms(1), of y "[0..<3]" t ris cells] Cons.prems
    by simp
  show ?case
    using Cons by (simp add: row replicate_add add.commute del: upt_Suc)
qed

lemma scanGrid_pureRed:
  assumes "pureRed img"
  shows "scanGrid img =
    (9 * ((height img div 3) * (width img div 3)),
     replicate (9 * ((height img div 3) * (width img div 3))) 255,
     concat (map (\<lambda>gridY.
        map (redCell ((height img div 3) * (width img div 3)) gridY) [0..<3]) [0..<3]))"
  using fold_rows_pureRed [OF assms, of "[0..<3]" 0 "[]" "[]"]
  by (simp add: scanGrid_def gridSize_def del: upt_Suc)


lemma foldl_replicate_255:
  "foldl (\<lambda>sum intensity. sum + intensity) s (replicate n (255::nat)) = s + n * 255"
  by (induction n arbitrary: s) auto

lemma redCells_pureRed:
  "length (filter (\<lambda>cell. redRatio cell > 3/10)
     (concat (map (\<lambda>gridY. map (redCell k gridY) [0..<3]) [0..<3])))
   = (if k > 0 then 9 else 0)"
  by (simp add: redCell_def upt_conv_Cons)

lemma grid_covers_iff:
  assumes "1 \<le> (w::nat)" and "1 \<le> h"
  shows "9 * ((h div 3) * (w div 3)) = w * h \<longleftrightarrow> 3 dvd w \<and> 3 dvd h"
proof
  assume "3 dvd w \<and> 3 dvd h"
  then obtain a b where "w = 3 * a" "h = 3 * b" by (auto simp: dvd_def)
  then show "9 * ((h div 3) * (w div 3)) = w * h" by simp
next
  assume eq: "9 * ((h div 3) * (w div 3)) = w * h"
  let ?a = "3 * (w div 3)" and ?b = "3 * (h div 3)"
  have le: "?a \<le> w" "?b \<le> h" by simp_all
  have prod: "?a * ?b = w * h" using eq by (simp add: mult.commute mult.left_commute)
  have "?a = w"
  proof (rule ccontr)
    assume "?a \<noteq> w"
    then have "?a < w" using le(1) by simp
    then have "?a * h < w * h" using assms(2) by simp
    moreover have "?a * ?b \<le> ?a * h" using le(2) by (rule mult_le_mono2)
    ultimately show False using prod by simp
  qed
  moreover have "?b = h"
  proof (rule ccontr)
    assume "?b \<noteq> h"
    then have "?b < h" using le(2) by simp
    then have "w * ?b < w * h" using assms(1) by simp
    moreover have "?a * ?b \<le> w * ?b" using le(1) by (rule mult_le_mono1)
    ultimately show False using prod by simp
  qed
  ultimately show "3 dvd w \<and> 3 dvd h" by (metis dvd_triv_left)
qed

lemma pureRed_score:
  assumes "pureRed img" and "1 \<le> width img" and "1 \<le> height img"
  shows "\<exists>r. detectGlobalRed (Some img) = Inr r \<and>
    globalRedCoverage r
      = real (9 * ((height img div 3) * (width img div 3))) / real (width img * height img) \<and>
    (3 \<le> width img \<and> 3 \<le> height img \<longrightarrow>
       redUniformityScore r = 1 \<and> redIntensityScore r = 1) \<and>
    (width img < 3 \<or> height img < 3 \<longrightarrow> killScore r = 0) \<and>
    (killScore r = 1 \<longleftrightarrow> 3 dvd width img \<and> 3 dvd height img)"
proof -
  define k where "k = (height img div 3) * (width img div 3)"
  have grid: "scanGrid img = (9 * k, replicate (9 * k) 255,
      concat (map (\<lambda>gridY. map (redCell k gridY) [0..<3]) [0..<3]))"
    using scanGrid_pureRed [OF assms(1)] by (simp add: k_def)
  have pixels: "width img * height img \<noteq> 0" using assms(2,3) by simp
  obtain r where r: "scoreFrame img = Inr r"
    and cov: "globalRedCoverage r = real (9 * k) / real (width img * height img)"
    and s1: "globalRedCoverageScore r = min 1 (globalRedCoverage r * 2)"
    and s2: "redUniformityScore r = real (if k > 0 then 9 else 0 :: nat) / 9"
    and s3: "redIntensityScore r = min 1 (avgRedIntensity r / 100)"
    and avg: "avgRedIntensity r =
      (if replicate (9 * k) (255::nat) = [] then 0
       else real (foldl (\<lambda>sum intensity. sum + intensity) 0 (replicate (9 * k) 255))
              / real (length (replicate (9 * k) (255::nat))))"
    and non: "nonRedArea r = 1 - globalRedCoverage r"
    and s4: "nonRedAreaScore r = max 0 (1 - nonRedArea r * 3)"
    and score: "killScore r = globalRedCoverageScore r * (4/10) + redUniformityScore r * (3/10)
      + redIntensityScore r * (2/10) + nonRedAreaScore r * (1/10)"
    using scoreFrame_fields [OF pixels grid] unfolding redCells_pureRed by auto
  have k_pos: "k > 0 \<longleftrightarrow> 3 \<le> width img \<and> 3 \<le> height img"
    by (auto simp: k_def div_greater_zero_iff)
  have le: "9 * k \<le> width img * height img"
    using grid_inside [of "height img" "width img"] by (simp add: k_def)
  have "real (9 * k) \<le> real (width img * height img)"
    using le by (simp only: of_nat_le_iff)
  then have cov_le: "globalRedCoverage r \<le> 1"
    using pixels by (simp add: cov)
  have cov_one: "globalRedCoverage r = 1 \<longleftrightarrow> 3 dvd width img \<and> 3 dvd height img"
  proof -
    have "globalRedCoverage r = 1 \<longleftrightarrow> real (9 * k) = real (width img * height img)"
      using pixels by (auto simp: cov)
    also have "\<dots> \<longleftrightarrow> 9 * k = width img * height img"
      by (simp only: of_nat_eq_iff)
    also have "\<dots> \<longleftrightarrow> 3 dvd width img \<and> 3 dvd height img"
      using grid_covers_iff [OF assms(2,3)] by (simp add: k_def)
    finally show ?thesis .
  qed
  have big: "redUniformityScore r = 1 \<and> redIntensityScore r = 1" if "k > 0"
  proof -
    have "avgRedIntensity r = 255"
      using that by (simp add: avg foldl_replicate_255)
    then show ?thesis using that by (simp add: s2 s3)
  qed
  have small: "killScore r = 0" if "k = 0"
  proof -
    have "globalRedCoverage r = 0" "avgRedIntensity r = 0" "redUniformityScore r = 0"
      using that by (simp_all add: cov avg s2)
    then show ?thesis by (simp add: score s1 s3 s4 non)
  qed
  have one: "killScore r = 1 \<longleftrightarrow> globalRedCoverage r = 1"
  proof (cases "k > 0")
    case True
    note b = big [OF True]
    show ?thesis
    proof
      assume "globalRedCoverage r = 1"
      then show "killScore r = 1" using b by (simp add: score s1 s4 non)
    next
      assume k1: "killScore r = 1"
      show "globalRedCoverage r = 1"
      proof (rule ccontr)
        assume "globalRedCoverage r \<noteq> 1"
        then have "globalRedCoverage r < 1" using cov_le by simp
        then have "nonRedAreaScore r < 1" by (simp add: s4 non)
        moreover have "globalRedCoverageScore r \<le> 1" by (simp add: s1)
        ultimately have "killScore r < 1"
          using b unfolding score by linarith
        then show False using k1 by simp
      qed
    qed
  next
    case False
    then have "k = 0" by simp
    from small [OF this] have "killScore r \<noteq> 1" by simp
    moreover have "globalRedCoverage r \<noteq> 1"
      using \<open>k = 0\<close> by (simp add: cov)
    ultimately show ?thesis by simp
  qed
  have "width img < 3 \<or> height img < 3 \<longrightarrow> killScore r = 0"
    using small k_pos by auto
  then show ?thesis
    using r cov big k_pos one cov_one by (auto simp: detectGlobalRed_def k_def)
qed

text \<open>The 4x4 frame is a frame of pure red in the sense of \<open>pureRed\<close>.\<close>

lemma allRed4x4_pureRed: "pureRed allRed4x4"
  unfolding pureRed_def allRed4x4_def
  by (simp add: eval_nat_numeral All_less_Suc)

text \<open>
  C5, at a well-formed 4x4 frame of pure red, where the claim expects the confidence 1. The
  grid cells are \<open>4 div 3 = 1\<close> pixel wide and high, so the scan visits 9 of the 16 pixels
  and divides the 9 red pixels it found by 16. The coverage and uniformity sub-scores are 1,
  the seven pixels never looked at count as non-red area, and the confidence is \<open>0.9\<close>.
\<close>

theorem allRed4x4_result:
  "length (data allRed4x4) = width allRed4x4 * height allRed4x4 * channels allRed4x4 \<and>
   detectGlobalRed (Some allRed4x4) =
     Inr \<lparr>isKillScreen = True, killScore = 9/10, globalRedCoverage = 9/16,
          globalRedCoverageScore = 1, redUniformity = 1, redUniformityScore = 1,
          avgRedIntensity = 255, redIntensityScore = 1, nonRedArea = 7/16,
          nonRedAreaScore = 0\<rparr>"
  by (simp add: allRed4x4_def scorer_defs)

section \<open>Detector: failures of the scoring call\<close>








section \<open>The store: what a call leaves as it was\<close>

lemma preserves_refl: "preserves h h"
  by (simp add: preserves_def)

lemma preserves_allocArray:
  assumes "preserves h0 h"
  shows "preserves h0 (snd (allocArray elems h))"
    and "fst (allocArray elems h) = nextArr h"
    and "nextArr (snd (allocArray elems h)) = nextArr h + 1"
  using assms by (auto simp: preserves_def allocArray_def)

lemma preserves_allocObject:
  assumes "preserves h0 h"
  shows "preserves h0 (snd (allocObject v h))"
    and "nextArr (snd (allocObject v h)) = nextArr h"
  using assms by (auto simp: preserves_def allocObject_def)

lemma preserves_pushArray:
  assumes "preserves h0 h" and "nextArr h0 \<le> arr"
  shows "preserves h0 (pushArray arr x h)"
    and "nextArr (pushArray arr x h) = nextArr h"
  using assms by (auto simp: preserves_def pushArray_def)

lemma preserves_sortInPlace:
  assumes "preserves h0 h" and "nextArr h0 \<le> arr"
  shows "preserves h0 (sortInPlace arr h)"
    and "nextArr (sortInPlace arr h) = nextArr h"
  using assms by (auto simp: preserves_def sortInPlace_def)

lemma preserves_hNewCluster:
  assumes "preserves h0 h" and "hNewCluster r h = (c', h')"
  shows "preserves h0 h' \<and> nextArr h0 \<le> h_detections c'"
proof -
  have c': "h_detections c' = nextArr h" and h': "h' = snd (allocArray [r] h)"
    using assms(2) by (auto simp: hNewCluster_def Let_def allocArray_def)
  have "nextArr h0 \<le> nextArr h" using assms(1) by (simp add: preserves_def)
  then show ?thesis
    using preserves_allocArray(1) [OF assms(1), of "[r]"] c' h' by simp
qed

lemma preserves_hExtendCluster:
  assumes "preserves h0 h" and "nextArr h0 \<le> h_detections c"
    and "hExtendCluster c r h = (c', h')"
  shows "preserves h0 h' \<and> nextArr h0 \<le> h_detections c'"
proof -
  have c': "h_detections c' = h_detections c" and h': "h' = pushArray (h_detections c) r h"
    using assms(3) by (auto simp: hExtendCluster_def Let_def)
  show ?thesis
    using preserves_pushArray(1) [OF assms(1,2), of r] c' h' assms(2) by simp
qed

lemma owned_simps:
  "owned h0 (cs, None) \<longleftrightarrow> (\<forall>c \<in> set cs. nextArr h0 \<le> h_detections c)"
  "owned h0 (cs, Some c) \<longleftrightarrow>
     (\<forall>d \<in> set cs. nextArr h0 \<le> h_detections d) \<and> nextArr h0 \<le> h_detections c"
  by (auto simp: owned_def hPushLast_def)

lemma hClusterLoop_preserves:
  assumes "preserves h0 h" and "owned h0 (cs, cur)"
    and "hClusterLoop w rs (cs, cur, h) = (cs', cur', h')"
  shows "preserves h0 h' \<and> owned h0 (cs', cur')"
  using assms
proof (induction rs arbitrary: cs cur h)
  case Nil
  then show ?case by simp
next
  case (Cons r rs)
  obtain cn hn where new: "hNewCluster r h = (cn, hn)" by (cases "hNewCluster r h")
  note pn = preserves_hNewCluster [OF Cons.prems(1) new]
  show ?case
  proof (cases cur)
    case None
    have "hClusterLoop w rs (cs, Some cn, hn) = (cs', cur', h')"
      using Cons.prems(3) None new by simp
    moreover have "owned h0 (cs, Some cn)"
      using Cons.prems(2) None pn by (simp add: owned_simps)
    ultimately show ?thesis using Cons.IH pn by blast
  next
    case (Some c)
    show ?thesis
    proof (cases "timeInSeconds (objects h r) - h_endTime c > w")
      case True
      have "hClusterLoop w rs (cs @ [c], Some cn, hn) = (cs', cur', h')"
        using Cons.prems(3) Some True new by simp
      moreover have "owned h0 (cs @ [c], Some cn)"
        using Cons.prems(2) Some pn by (auto simp: owned_simps)
      ultimately show ?thesis using Cons.IH pn by blast
    next
      case False
      obtain ce he where ext: "hExtendCluster c r h = (ce, he)"
        by (cases "hExtendCluster c r h")
      have oc: "nextArr h0 \<le> h_detections c"
        using Cons.prems(2) Some by (simp add: owned_simps)
      note pe = preserves_hExtendCluster [OF Cons.prems(1) oc ext]
      have "hClusterLoop w rs (cs, Some ce, he) = (cs', cur', h')"
        using Cons.prems(3) Some False ext by simp
      moreover have "owned h0 (cs, Some ce)"
        using Cons.prems(2) Some pe by (simp add: owned_simps)
      ultimately show ?thesis using Cons.IH pe by blast
    qed
  qed
qed

lemma hAnalyzeLoop_eq: "hAnalyzeLoop rs st = hClusterLoop 2 rs st"
  by (induction rs st rule: hAnalyzeLoop.induct) (auto split: option.splits prod.splits)

lemma hSelectLoop_preserves:
  assumes "preserves h0 h" and "nextArr h0 \<le> filtered"
  shows "preserves h0 (snd (hSelectLoop m cs filtered h))"
  using assms
proof (induction cs arbitrary: h)
  case Nil
  then show ?case by simp
next
  case (Cons c cs)
  let ?ds = "arrays h (h_detections c)"
  show ?case
  proof (cases "m \<le> length ?ds")
    case False
    then show ?thesis using Cons by simp
  next
    case True
    show ?thesis
    proof (cases "hReduceBest h ?ds")
      case None
      then show ?thesis using True Cons.prems by simp
    next
      case (Some rep)
      let ?v = "(objects h rep)\<lparr>confidence :=
          min 1 (dbl (confidence (objects h rep)
            + min (dbl (1/10)) (dbl (real (length ?ds) * dbl (2/100)))))\<rparr>"
      let ?h1 = "snd (allocObject ?v h)" and ?e = "fst (allocObject ?v h)"
      have p1: "preserves h0 ?h1"
        by (rule preserves_allocObject(1) [OF Cons.prems(1)])
      have p2: "preserves h0 (pushArray filtered ?e ?h1)"
        by (rule preserves_pushArray(1) [OF p1 Cons.prems(2)])
      have "hSelectLoop m (c # cs) filtered h
          = hSelectLoop m cs filtered (pushArray filtered ?e ?h1)"
        using True Some by (simp add: Let_def case_prod_beta)
      then show ?thesis using Cons.IH [OF p2 Cons.prems(2)] by simp
    qed
  qed
qed

lemma hDeduplicateKillScreens_preserves:
  "preserves h (snd (hDeduplicateKillScreens killScreens w m h))"
proof (cases "arrays h killScreens = []")
  case True
  then show ?thesis
    using preserves_allocArray(1) [OF preserves_refl, of h "[]"]
    by (simp add: hDeduplicateKillScreens_def case_prod_beta)
next
  case False
  let ?h1 = "snd (allocArray (arrays h killScreens) h)"
  let ?s = "fst (allocArray (arrays h killScreens) h)"
  let ?h2 = "sortInPlace ?s ?h1"
  obtain cs cur h3 where loop: "hClusterLoop w (arrays ?h2 ?s) ([], None, ?h2) = (cs, cur, h3)"
    by (cases "hClusterLoop w (arrays ?h2 ?s) ([], None, ?h2)")
  have p1: "preserves h ?h1" by (rule preserves_allocArray(1) [OF preserves_refl])
  have s: "nextArr h \<le> ?s" by (simp add: allocArray_def)
  have p2: "preserves h ?h2" by (rule preserves_sortInPlace(1) [OF p1 s])
  have p3: "preserves h h3"
    using hClusterLoop_preserves [OF p2 _ loop] by (simp add: owned_simps)
  let ?h4 = "snd (allocArray [] h3)" and ?f = "fst (allocArray [] h3)"
  have p4: "preserves h ?h4" by (rule preserves_allocArray(1) [OF p3])
  have f: "nextArr h \<le> ?f" using p3 by (simp add: allocArray_def preserves_def)
  have "hDeduplicateKillScreens killScreens w m h
      = hSelectLoop m (hPushLast (cs, cur)) ?f ?h4"
    using False loop by (simp add: hDeduplicateKillScreens_def Let_def case_prod_beta)
  then show ?thesis using hSelectLoop_preserves [OF p4 f] by simp
qed

lemma hAnalyzeDetectionClusters_preserves:
  "preserves h (snd (hAnalyzeDetectionClusters killScreens h))"
proof (cases "arrays h killScreens = []")
  case True
  then show ?thesis
    by (simp add: hAnalyzeDetectionClusters_def preserves_refl)
next
  case False
  let ?h1 = "snd (allocArray (arrays h killScreens) h)"
  let ?s = "fst (allocArray (arrays h killScreens) h)"
  let ?h2 = "sortInPlace ?s ?h1"
  obtain cs cur h3 where loop: "hClusterLoop 2 (arrays ?h2 ?s) ([], None, ?h2) = (cs, cur, h3)"
    by (cases "hClusterLoop 2 (arrays ?h2 ?s) ([], None, ?h2)")
  have p1: "preserves h ?h1" by (rule preserves_allocArray(1) [OF preserves_refl])
  have s: "nextArr h \<le> ?s" by (simp add: allocArray_def)
  have p2: "preserves h ?h2" by (rule preserves_sortInPlace(1) [OF p1 s])
  have p3: "preserves h h3"
    using hClusterLoop_preserves [OF p2 _ loop] by (simp add: owned_simps)
  have "snd (hAnalyzeDetectionClusters killScreens h) = h3"
    using False loop
    by (simp add: hAnalyzeDetectionClusters_def hAnalyzeLoop_eq Let_def case_prod_beta
        split: list.splits)
  then show ?thesis using p3 by simp
qed

section \<open>The store: agreement with the functional model\<close>

lemma map_insort_key:
  "map f (insort_key (\<lambda>r. g (f r)) x xs) = insort_key g (f x) (map f xs)"
  by (induction xs) auto

lemma map_sort_key: "map f (sort_key (\<lambda>r. g (f r)) xs) = sort_key g (map f xs)"
  by (induction xs) (auto simp: map_insort_key)

lemma foldl_confidence:
  "foldl (\<lambda>sum d. sum + confidence (f d)) s ds = foldl (\<lambda>sum d. sum + confidence d) s (map f ds)"
  by (induction ds arbitrary: s) auto

lemma foldl_best_map:
  "f (foldl (\<lambda>best current. if confidence (f current) > confidence (f best)
                              then current else best) d rest)
   = foldl (\<lambda>best current. if confidence current > confidence best then current else best)
       (f d) (map f rest)"
  by (induction rest arbitrary: d) auto

lemma hReduceBest_abs: "map_option (objects h) (hReduceBest h ds) = reduceBest (map (objects h) ds)"
proof (cases ds)
  case Nil
  then show ?thesis by (simp add: hReduceBest_def reduceBest_def)
next
  case (Cons d rest)
  then show ?thesis
    using foldl_best_map [of "objects h" d rest] by (simp add: hReduceBest_def reduceBest_def)
qed

lemma hNewCluster_abs:
  assumes "hNewCluster r h = (cn, hn)"
  shows "absCluster hn cn = newCluster (objects h r)"
    and "h_detections cn = nextArr h"
    and "nextArr hn = nextArr h + 1"
    and "objects hn = objects h"
    and "a \<noteq> nextArr h \<Longrightarrow> arrays hn a = arrays h a"
    and "arrays hn (nextArr h) = [r]"
    and "nextObj hn = nextObj h"
  using assms
  by (auto simp: hNewCluster_def allocArray_def absCluster_def newCluster_def contents_def
      Let_def)

lemma hExtendCluster_abs:
  assumes "hExtendCluster c r h = (ce, he)"
  shows "absCluster he ce = extendCluster (absCluster h c) (objects h r)"
    and "h_detections ce = h_detections c"
    and "nextArr he = nextArr h"
    and "objects he = objects h"
    and "a \<noteq> h_detections c \<Longrightarrow> arrays he a = arrays h a"
    and "arrays he (h_detections c) = arrays h (h_detections c) @ [r]"
    and "nextObj he = nextObj h"
  using assms
  by (auto simp: hExtendCluster_def pushArray_def absCluster_def extendCluster_def
      contents_def Let_def foldl_confidence [symmetric])

lemma absCluster_cong:
  assumes "objects h' = objects h" and "arrays h' (h_detections c) = arrays h (h_detections c)"
  shows "absCluster h' c = absCluster h c"
  using assms by (simp add: absCluster_def contents_def)

lemma hClusterLoop_abs:
  assumes "separate h (hPushLast (cs, cur))"
    and "\<forall>r \<in> set rs. r < nextObj h"
    and "hClusterLoop w rs (cs, cur, h) = (cs', cur', h')"
  shows "clusterLoop w (map (objects h) rs) (map (absCluster h) cs, map_option (absCluster h) cur)
           = (map (absCluster h') cs', map_option (absCluster h') cur') \<and>
         objects h' = objects h \<and> nextObj h' = nextObj h \<and>
         separate h' (hPushLast (cs', cur'))"
  using assms
proof (induction rs arbitrary: cs cur h)
  case Nil
  then show ?case by simp
next
  case (Cons r rs)
  obtain cn hn where new: "hNewCluster r h = (cn, hn)" by (cases "hNewCluster r h")
  note n = hNewCluster_abs [OF new]
  have r: "r < nextObj h" and rs_n: "\<forall>r \<in> set rs. r < nextObj hn"
    using Cons.prems(2) n(7) by simp_all
  have keep_n: "absCluster hn c = absCluster h c" if "h_detections c < nextArr h" for c
    using that by (intro absCluster_cong n(4) n(5)) simp
  have sep_n: "separate hn (ds @ [cn])" if "separate h ds" for ds
  proof -
    have old: "h_detections c < nextArr h"
        "\<forall>r \<in> set (arrays h (h_detections c)). r < nextObj h" if "c \<in> set ds" for c
      using \<open>separate h ds\<close> that by (simp_all add: separate_def)
    have "arrays hn (h_detections c) = arrays h (h_detections c)" if "c \<in> set ds" for c
      using old(1) [OF that] by (intro n(5)) simp
    moreover have "h_detections cn \<notin> h_detections ` set ds"
      using old(1) n(2) by fastforce
    moreover have "h_detections c < Suc (nextArr h)" if "c \<in> set ds" for c
      using old(1) [OF that] by simp
    ultimately show ?thesis
      using \<open>separate h ds\<close> old(2) r n(2,3,6,7) by (simp add: separate_def)
  qed
  show ?case
  proof (cases cur)
    case None
    have sep: "separate h cs"
      using Cons.prems(1) None by (simp add: hPushLast_def)
    have low: "\<forall>c \<in> set cs. h_detections c < nextArr h"
      using sep by (simp add: separate_def)
    have run: "hClusterLoop w rs (cs, Some cn, hn) = (cs', cur', h')"
      using Cons.prems(3) None new by simp
    have sep': "separate hn (hPushLast (cs, Some cn))"
      using sep_n [OF sep] by (simp add: hPushLast_def)
    have same: "map (absCluster hn) cs = map (absCluster h) cs"
      using low keep_n by simp
    have ih: "clusterLoop w (map (objects h) rs)
          (map (absCluster h) cs, Some (newCluster (objects h r)))
        = (map (absCluster h') cs', map_option (absCluster h') cur')"
      "objects h' = objects hn" "nextObj h' = nextObj hn"
      "separate h' (hPushLast (cs', cur'))"
      using Cons.IH [OF sep' rs_n run] unfolding n(4) same by (simp_all add: n(1))
    show ?thesis
      unfolding None using ih by (simp add: n(4) n(7))
  next
    case (Some c)
    have sep: "separate h (cs @ [c])"
      using Cons.prems(1) Some by (simp add: hPushLast_def)
    have low: "\<forall>d \<in> set (cs @ [c]). h_detections d < nextArr h"
      using sep by (simp add: separate_def)
    have endTime: "cl_endTime (absCluster h c) = h_endTime c"
      by (simp add: absCluster_def)
    show ?thesis
    proof (cases "timeInSeconds (objects h r) - h_endTime c > w")
      case True
      have run: "hClusterLoop w rs (cs @ [c], Some cn, hn) = (cs', cur', h')"
        using Cons.prems(3) Some True new by simp
      have sep': "separate hn (hPushLast (cs @ [c], Some cn))"
        using sep_n [OF sep] by (simp add: hPushLast_def)
      have same: "map (absCluster hn) (cs @ [c]) = map (absCluster h) (cs @ [c])"
        using low keep_n by simp
      have ih: "clusterLoop w (map (objects h) rs)
            (map (absCluster h) (cs @ [c]), Some (newCluster (objects h r)))
          = (map (absCluster h') cs', map_option (absCluster h') cur')"
        "objects h' = objects hn" "nextObj h' = nextObj hn"
        "separate h' (hPushLast (cs', cur'))"
        using Cons.IH [OF sep' rs_n run] unfolding n(4) same by (simp_all add: n(1))
      show ?thesis
        unfolding Some using ih True by (simp add: n(4) n(7) endTime)
    next
      case False
      obtain ce he where ext: "hExtendCluster c r h = (ce, he)"
        by (cases "hExtendCluster c r h")
      note e = hExtendCluster_abs [OF ext]
      have rs_e: "\<forall>r \<in> set rs. r < nextObj he"
        using Cons.prems(2) e(7) by simp
      have run: "hClusterLoop w rs (cs, Some ce, he) = (cs', cur', h')"
        using Cons.prems(3) Some False ext by simp
      have "h_detections c \<notin> h_detections ` set cs"
        using sep by (simp add: separate_def)
      then have apart_c: "\<forall>d \<in> set cs. h_detections d \<noteq> h_detections c"
        by (metis imageI)
      have arrays_e: "arrays he (h_detections d) = arrays h (h_detections d)"
        if "d \<in> set cs" for d
        using that apart_c by (intro e(5)) simp
      have sep': "separate he (hPushLast (cs, Some ce))"
        using sep r arrays_e e(2,3,6,7) by (simp add: separate_def hPushLast_def)
      have "absCluster he d = absCluster h d" if "d \<in> set cs" for d
        using arrays_e [OF that] by (intro absCluster_cong e(4))
      then have same: "map (absCluster he) cs = map (absCluster h) cs" by simp
      have ih: "clusterLoop w (map (objects h) rs)
            (map (absCluster h) cs, Some (extendCluster (absCluster h c) (objects h r)))
          = (map (absCluster h') cs', map_option (absCluster h') cur')"
        "objects h' = objects he" "nextObj h' = nextObj he"
        "separate h' (hPushLast (cs', cur'))"
        using Cons.IH [OF sep' rs_e run] unfolding e(4) same by (simp_all add: e(1))
      show ?thesis
        unfolding Some using ih False by (simp add: e(4) e(7) endTime)
    qed
  qed
qed

lemma absCluster_agree:
  assumes "arrays h' (h_detections c) = arrays h (h_detections c)"
    and "\<forall>r \<in> set (arrays h (h_detections c)). objects h' r = objects h r"
  shows "absCluster h' c = absCluster h c"
  using assms by (simp add: absCluster_def contents_def)

lemma hSelectLoop_abs:
  assumes "\<forall>c \<in> set cs. h_detections c \<noteq> filtered \<and>
             (\<forall>r \<in> set (arrays h (h_detections c)). r < nextObj h)"
    and "\<forall>r \<in> set (arrays h filtered). r < nextObj h"
    and "hSelectLoop m cs filtered h = (res, h')"
  shows "map_sum id (contents h') res
           = selectLoop m (map (absCluster h) cs) (contents h filtered)"
  using assms
proof (induction cs arbitrary: h)
  case Nil
  then show ?case by auto
next
  case (Cons c cs)
  let ?ds = "arrays h (h_detections c)"
  have len: "length (cl_detections (absCluster h c)) = length ?ds"
    by (simp add: absCluster_def contents_def)
  have dets: "cl_detections (absCluster h c) = map (objects h) ?ds"
    by (simp add: absCluster_def contents_def)
  have rest: "\<forall>d \<in> set cs. h_detections d \<noteq> filtered \<and>
             (\<forall>r \<in> set (arrays h (h_detections d)). r < nextObj h)"
    using Cons.prems(1) by simp
  show ?case
  proof (cases "m \<le> length ?ds")
    case False
    have "hSelectLoop m cs filtered h = (res, h')"
      using Cons.prems(3) False by simp
    from Cons.IH [OF rest Cons.prems(2) this] show ?thesis
      using False len by simp
  next
    case True
    show ?thesis
    proof (cases "hReduceBest h ?ds")
      case None
      then have "reduceBest (map (objects h) ?ds) = None"
        using hReduceBest_abs [of h ?ds] by simp
      moreover have "res = Inl TypeError"
        using Cons.prems(3) True None by simp
      ultimately show ?thesis using True len dets by simp
    next
      case (Some rep)
      then have best: "reduceBest (map (objects h) ?ds) = Some (objects h rep)"
        using hReduceBest_abs [of h ?ds] by simp
      define v where "v = (objects h rep)\<lparr>confidence :=
          min 1 (dbl (confidence (objects h rep)
            + min (dbl (1/10)) (dbl (real (length ?ds) * dbl (2/100)))))\<rparr>"
      define h2 where "h2 = pushArray filtered (fst (allocObject v h)) (snd (allocObject v h))"
      have v: "v = enhance (absCluster h c) (objects h rep)"
        by (simp add: v_def enhance_def Let_def len)
      have run: "hSelectLoop m cs filtered h2 = (res, h')"
        using Cons.prems(3) True Some by (simp add: Let_def case_prod_beta h2_def v_def)
      have objs: "objects h2 r = objects h r" if "r < nextObj h" for r
        using that by (simp add: h2_def pushArray_def allocObject_def)
      have arrs: "arrays h2 a = arrays h a" if "a \<noteq> filtered" for a
        using that by (simp add: h2_def pushArray_def allocObject_def)
      have next2: "nextObj h2 = nextObj h + 1"
        by (simp add: h2_def pushArray_def allocObject_def)
      have filtered2: "arrays h2 filtered = arrays h filtered @ [nextObj h]"
        by (simp add: h2_def pushArray_def allocObject_def)
      have new2: "objects h2 (nextObj h) = v"
        by (simp add: h2_def pushArray_def allocObject_def)
      have rest2: "\<forall>d \<in> set cs. h_detections d \<noteq> filtered \<and>
             (\<forall>r \<in> set (arrays h2 (h_detections d)). r < nextObj h2)"
        using rest arrs next2 by fastforce
      have f2: "\<forall>r \<in> set (arrays h2 filtered). r < nextObj h2"
        using Cons.prems(2) filtered2 next2 by fastforce
      have same: "map (absCluster h2) cs = map (absCluster h) cs"
      proof (rule map_cong [OF refl])
        fix d assume "d \<in> set cs"
        then show "absCluster h2 d = absCluster h d"
          using rest arrs objs by (intro absCluster_agree) auto
      qed
      have "map (objects h2) (arrays h filtered) = map (objects h) (arrays h filtered)"
        using Cons.prems(2) objs by simp
      then have cont: "contents h2 filtered = contents h filtered @ [v]"
        using new2 by (simp add: contents_def filtered2)
      from Cons.IH [OF rest2 f2 run] show ?thesis
        unfolding same cont using True len dets best v by simp
    qed
  qed
qed


lemma pushLast_abs:
  "map (absCluster h) (hPushLast (cs, cur))
     = pushLast (map (absCluster h) cs, map_option (absCluster h) cur)"
  by (cases cur) (simp_all add: hPushLast_def pushLast_def)

lemma sorted_copy:
  assumes "allocArray (arrays h a) h = (s, h1)" and "h2 = sortInPlace s h1"
  shows "contents h2 s = sort_key timeInSeconds (contents h a)"
    and "objects h2 = objects h" and "nextObj h2 = nextObj h" and "s = nextArr h"
    and "set (arrays h2 s) = set (arrays h a)" and "nextArr h2 = nextArr h + 1"
  using assms map_sort_key [of "objects h" timeInSeconds "arrays h a"]
  by (auto simp: allocArray_def sortInPlace_def contents_def)

lemma hClusterLoop_from_empty:
  assumes "\<forall>r \<in> set rs. r < nextObj h"
    and "hClusterLoop w rs ([], None, h) = (cs, cur, h3)"
  shows "map (absCluster h3) (hPushLast (cs, cur)) = mergeClusters w (map (objects h) rs)"
    and "objects h3 = objects h" and "nextObj h3 = nextObj h"
    and "separate h3 (hPushLast (cs, cur))"
proof -
  have "separate h (hPushLast ([], None))"
    by (simp add: separate_def hPushLast_def)
  from hClusterLoop_abs [OF this assms]
  show "map (absCluster h3) (hPushLast (cs, cur)) = mergeClusters w (map (objects h) rs)"
    and "objects h3 = objects h" and "nextObj h3 = nextObj h"
    and "separate h3 (hPushLast (cs, cur))"
    by (simp_all add: pushLast_abs mergeClusters_def)
qed

lemma hDeduplicateKillScreens_refines:
  assumes "\<forall>r \<in> set (arrays h killScreens). r < nextObj h"
    and "hDeduplicateKillScreens killScreens w m h = (res, h')"
  shows "map_sum id (contents h') res = deduplicateKillScreens (contents h killScreens) w m"
proof (cases "arrays h killScreens = []")
  case True
  then show ?thesis
    using assms(2)
    by (auto simp: hDeduplicateKillScreens_def deduplicateKillScreens_def contents_def
        allocArray_def)
next
  case False
  obtain s h1 where copy: "allocArray (arrays h killScreens) h = (s, h1)"
    by (cases "allocArray (arrays h killScreens) h")
  define h2 where "h2 = sortInPlace s h1"
  note sc = sorted_copy [OF copy h2_def]
  obtain cs cur h3 where loop: "hClusterLoop w (arrays h2 s) ([], None, h2) = (cs, cur, h3)"
    by (cases "hClusterLoop w (arrays h2 s) ([], None, h2)")
  have refs: "\<forall>r \<in> set (arrays h2 s). r < nextObj h2"
    using assms(1) sc(3,5) by simp
  note lp = hClusterLoop_from_empty [OF refs loop]
  obtain f h4 where out: "allocArray [] h3 = (f, h4)" by (cases "allocArray [] h3")
  have h4: "f = nextArr h3" "arrays h4 f = []" "objects h4 = objects h3"
    "nextObj h4 = nextObj h3" "\<And>a. a \<noteq> f \<Longrightarrow> arrays h4 a = arrays h3 a"
    using out by (auto simp: allocArray_def)
  have run: "hSelectLoop m (hPushLast (cs, cur)) f h4 = (res, h')"
    using assms(2) False copy loop out
    by (simp add: hDeduplicateKillScreens_def h2_def)
  have below: "h_detections c < f \<and> (\<forall>r \<in> set (arrays h3 (h_detections c)). r < nextObj h3)"
    if "c \<in> set (hPushLast (cs, cur))" for c
    using lp(4) that h4(1) by (simp add: separate_def)
  have inv1: "\<forall>c \<in> set (hPushLast (cs, cur)). h_detections c \<noteq> f \<and>
             (\<forall>r \<in> set (arrays h4 (h_detections c)). r < nextObj h4)"
    using below h4(4,5) by fastforce
  have inv2: "\<forall>r \<in> set (arrays h4 f). r < nextObj h4"
    by (simp add: h4(2))
  have same: "map (absCluster h4) (hPushLast (cs, cur)) = map (absCluster h3) (hPushLast (cs, cur))"
  proof (rule map_cong [OF refl])
    fix c assume "c \<in> set (hPushLast (cs, cur))"
    then have "h_detections c \<noteq> f" using below by fastforce
    then show "absCluster h4 c = absCluster h3 c"
      by (intro absCluster_cong h4(3) h4(5))
  qed
  have "map_sum id (contents h') res
      = selectLoop m (map (absCluster h4) (hPushLast (cs, cur))) (contents h4 f)"
    by (rule hSelectLoop_abs [OF inv1 inv2 run])
  also have "\<dots> = selectLoop m (mergeClusters w (sort_key timeInSeconds (contents h killScreens))) []"
    using lp(1) sc(1) by (simp add: same contents_def h4(2))
  finally show ?thesis
    using False by (simp add: deduplicateKillScreens_def contents_def Let_def)
qed

lemma hAnalyzeDetectionClusters_refines:
  assumes "\<forall>r \<in> set (arrays h killScreens). r < nextObj h"
    and "hAnalyzeDetectionClusters killScreens h = (res, h')"
  shows "map_sum id (absAnalysis h') res = analyzeDetectionClusters (contents h killScreens)"
proof (cases "arrays h killScreens = []")
  case True
  then show ?thesis
    using assms(2)
    by (auto simp: hAnalyzeDetectionClusters_def analyzeDetectionClusters_def contents_def
        absAnalysis_def)
next
  case False
  obtain s h1 where copy: "allocArray (arrays h killScreens) h = (s, h1)"
    by (cases "allocArray (arrays h killScreens) h")
  define h2 where "h2 = sortInPlace s h1"
  note sc = sorted_copy [OF copy h2_def]
  obtain cs cur h3 where loop: "hClusterLoop 2 (arrays h2 s) ([], None, h2) = (cs, cur, h3)"
    by (cases "hClusterLoop 2 (arrays h2 s) ([], None, h2)")
  have refs: "\<forall>r \<in> set (arrays h2 s). r < nextObj h2"
    using assms(1) sc(3,5) by simp
  note lp = hClusterLoop_from_empty [OF refs loop]
  define P where "P = mergeClusters 2 (sort_key timeInSeconds (contents h killScreens))"
  have abs: "map (absCluster h3) (hPushLast (cs, cur)) = P"
    using lp(1) sc(1) by (simp add: P_def contents_def)
  have sizes: "map (\<lambda>c. length (arrays h3 (h_detections c))) (hPushLast (cs, cur))
      = map (\<lambda>c. length (cl_detections c)) P"
    unfolding abs [symmetric] by (simp add: absCluster_def contents_def)
  have len: "length (hPushLast (cs, cur)) = length P"
    unfolding abs [symmetric] by simp
  have pure: "analyzeDetectionClusters (contents h killScreens) =
      (case map (\<lambda>c. length (cl_detections c)) P of
         [] \<Rightarrow> Inl NonFinite
       | s # sizes \<Rightarrow>
           Inr \<lparr>totalClusters = length P,
                averageClusterSize =
                  real (foldl (\<lambda>sum size. sum + size) 0 (map (\<lambda>c. length (cl_detections c)) P))
                    / real (length P),
                maxClusterSize = foldl max s sizes,
                ca_clusters = P\<rparr>)"
    using False
    unfolding P_def analyzeDetectionClusters_def analyzeLoop_eq mergeClusters_def
      contents_def Let_def
    by simp
  have heap: "(res, h') =
      (case map (\<lambda>c. length (cl_detections c)) P of
         [] \<Rightarrow> (Inl NonFinite, h3)
       | s # sizes \<Rightarrow>
           (Inr \<lparr>h_totalClusters = length P,
                 h_averageClusterSize =
                   real (foldl (\<lambda>sum size. sum + size) 0 (map (\<lambda>c. length (cl_detections c)) P))
                     / real (length P),
                 h_maxClusterSize = foldl max s sizes,
                 h_clusters = hPushLast (cs, cur)\<rparr>, h3))"
    using assms(2) False copy loop
    by (simp add: hAnalyzeDetectionClusters_def hAnalyzeLoop_eq h2_def Let_def sizes len
        cong: list.case_cong)
  show ?thesis
    unfolding pure using heap abs
    by (cases "map (\<lambda>c. length (cl_detections c)) P") (auto simp: absAnalysis_def)
qed

section \<open>The store: the caller's array and objects\<close>

text \<open>
  C10. Let \<open>killScreens\<close> be an allocated array of allocated objects, in any order. After
  \<open>deduplicateKillScreens\<close>, and after \<open>analyzeDetectionClusters\<close>, the array holds the same
  references in the same order and each of its objects holds the same \<open>frameNumber\<close>,
  \<open>timeInSeconds\<close> and \<open>confidence\<close>: the sort works on a copy, the clusters collect
  references in arrays of their own, and a returned record is a new object. (By
  \<open>hDeduplicateKillScreens_refines\<close> and \<open>hAnalyzeDetectionClusters_refines\<close> the results read
  out of the store are those of the functional model.)
\<close>

theorem clusterer_leaves_input_unchanged:
  assumes "killScreens < nextArr h"
    and "\<forall>r \<in> set (arrays h killScreens). r < nextObj h"
  shows "arrays (snd (hDeduplicateKillScreens killScreens w m h)) killScreens
           = arrays h killScreens \<and>
         (\<forall>r \<in> set (arrays h killScreens).
            objects (snd (hDeduplicateKillScreens killScreens w m h)) r = objects h r) \<and>
         contents (snd (hDeduplicateKillScreens killScreens w m h)) killScreens
           = contents h killScreens \<and>
         arrays (snd (hAnalyzeDetectionClusters killScreens h)) killScreens
           = arrays h killScreens \<and>
         (\<forall>r \<in> set (arrays h killScreens).
            objects (snd (hAnalyzeDetectionClusters killScreens h)) r = objects h r) \<and>
         contents (snd (hAnalyzeDetectionClusters killScreens h)) killScreens
           = contents h killScreens"
proof -
  have kept: "arrays h' killScreens = arrays h killScreens \<and>
      (\<forall>r \<in> set (arrays h killScreens). objects h' r = objects h r) \<and>
      contents h' killScreens = contents h killScreens" if "preserves h h'" for h'
  proof -
    have a: "arrays h' killScreens = arrays h killScreens"
      using that assms(1) by (simp add: preserves_def)
    have o: "\<forall>r \<in> set (arrays h killScreens). objects h' r = objects h r"
      using that assms(2) by (simp add: preserves_def)
    show ?thesis using a o by (simp add: contents_def)
  qed
  show ?thesis
    using kept [OF hDeduplicateKillScreens_preserves [of h killScreens w m]]
      kept [OF hAnalyzeDetectionClusters_preserves [of h killScreens]]
    by simp
qed

lemmas heap_defs = hDeduplicateKillScreens_def hAnalyzeDetectionClusters_def allocArray_def
  allocObject_def pushArray_def sortInPlace_def hNewCluster_def hExtendCluster_def
  hPushLast_def hReduceBest_def contents_def Let_def

theorem clusterer_leaves_input_unchanged_witness:
  "0 < nextArr twoUnsorted \<and>
   arrays twoUnsorted 0 = [0, 1] \<and>
   arrays (snd (hDeduplicateKillScreens 0 2 1 twoUnsorted)) 0 = [0, 1] \<and>
   arrays (snd (hDeduplicateKillScreens 0 2 1 twoUnsorted)) 1 = [1, 0] \<and>
   contents (snd (hDeduplicateKillScreens 0 2 1 twoUnsorted)) 0 =
     [\<lparr>frameNumber = 25, timeInSeconds = 5, confidence = 7/8\<rparr>,
      \<lparr>frameNumber = 20, timeInSeconds = 4, confidence = 3/4\<rparr>] \<and>
   fst (hDeduplicateKillScreens 0 2 1 twoUnsorted) = Inr 3 \<and>
   contents (snd (hDeduplicateKillScreens 0 2 1 twoUnsorted)) 3 =
     [\<lparr>frameNumber = 25, timeInSeconds = 5,
        confidence = 1030198414761001 / 1125899906842624\<rparr>] \<and>
   arrays (snd (hAnalyzeDetectionClusters 0 twoUnsorted)) 0 = [0, 1]"
proof -
  have a: "0 < nextArr twoUnsorted"
    and r: "\<forall>r \<in> set (arrays twoUnsorted 0). r < nextObj twoUnsorted"
    by (simp_all add: twoUnsorted_def)
  have v: "min 1 (dbl (7/8 + min (dbl (1/10)) (dbl (2 * dbl (2/100)))))
      = 1030198414761001 / 1125899906842624"
    and v': "dbl (7/8 + min (dbl (1/10)) (dbl (2 * dbl (2/100))))
      = 1030198414761001 / 1125899906842624"
    by (simp_all add: dbl_eval)
  show ?thesis
    using clusterer_leaves_input_unchanged [OF a r, of 2 1] v v'
    by (simp add: twoUnsorted_def heap_defs)
qed

end
